theory Spec2Isabelle
  imports Main "HOL-Library.Product_Lexorder"
begin

section \<open>Battleship: board model, fleet validator, move resolver, targeting AI\<close>

text \<open>
  A shallow embedding of \<^verbatim>\<open>src/utils.py\<close> and \<^verbatim>\<open>src/gameplay.py\<close>.
  Python integers are \<^typ>\<open>int\<close>, a coordinate is a pair of them, a ship is a list of
  coordinates and a board is a list of rows of one-character strings. Everything that
  raises in Python is a value \<open>Inl e\<close> of a sum type; mutation of a board is the
  board returned updated.
\<close>

subsection \<open>Python primitives\<close>

datatype error = IndexError | ValueError | TypeError | Unrepresentable

type_synonym coord = "int \<times> int"
type_synonym ship = "coord list"

text \<open>Sequencing of computations that may raise.\<close>

definition bind_res :: "error + 'a \<Rightarrow> ('a \<Rightarrow> error + 'b) \<Rightarrow> error + 'b" where
  "bind_res m f = (case m of Inl e \<Rightarrow> Inl e | Inr x \<Rightarrow> f x)"

text \<open>
  \<^verbatim>\<open>xs[i]\<close>: a negative index counts from the end, an index out of range raises
  IndexError.
\<close>

definition py_pos :: "nat \<Rightarrow> int \<Rightarrow> error + nat" where
  "py_pos n i =
     (if 0 \<le> i \<and> i < int n then Inr (nat i)
      else if i < 0 \<and> - int n \<le> i then Inr (nat (int n + i))
      else Inl IndexError)"

definition py_index :: "'a list \<Rightarrow> int \<Rightarrow> error + 'a" where
  "py_index xs i = bind_res (py_pos (length xs) i) (\<lambda>k. Inr (xs ! k))"

text \<open>
  Strings are lists of \<^typ>\<open>char\<close>, a character standing for the code point of its
  byte value (Latin-1). \<^verbatim>\<open>chr\<close> of a code point above 255 has no counterpart
  here and yields \<open>Unrepresentable\<close>; below 0 and from 0x110000 on Python raises
  ValueError.
\<close>

definition py_chr :: "int \<Rightarrow> error + char" where
  "py_chr i =
     (if i < 0 \<or> 1114112 \<le> i then Inl ValueError
      else if 256 \<le> i then Inl Unrepresentable
      else Inr (char_of i))"

text \<open>\<^verbatim>\<open>str(n)\<close> of an integer: its decimal digits, with a minus sign when negative.\<close>

definition digit_char :: "nat \<Rightarrow> char" where
  "digit_char d = ''0123456789'' ! d"

fun nat_digits :: "nat \<Rightarrow> string" where
  "nat_digits n = (if n < 10 then [digit_char n] else nat_digits (n div 10) @ [digit_char (n mod 10)])"

declare nat_digits.simps [simp del]

definition py_str :: "int \<Rightarrow> string" where
  "py_str i = (if i < 0 then CHR ''-'' # nat_digits (nat (- i)) else nat_digits (nat i))"

text \<open>
  \<^verbatim>\<open>s.strip()\<close> removes the characters for which \<^verbatim>\<open>isspace()\<close> holds from both
  ends; \<^verbatim>\<open>int(s)\<close> tolerates a smaller set of blanks around the number.
\<close>

definition is_space :: "char \<Rightarrow> bool" where
  "is_space c = ((of_char c :: nat) \<in> {9, 10, 11, 12, 13, 28, 29, 30, 31, 32, 133, 160})"

definition is_int_space :: "char \<Rightarrow> bool" where
  "is_int_space c = ((of_char c :: nat) \<in> {9, 10, 11, 12, 13, 32, 133, 160})"

definition py_strip :: "string \<Rightarrow> string" where
  "py_strip s = rev (dropWhile is_space (rev (dropWhile is_space s)))"

text \<open>\<^verbatim>\<open>s.split(",")\<close>: the pieces between commas; the empty string gives one empty piece.\<close>

fun py_split :: "string \<Rightarrow> string list" where
  "py_split [] = [[]]"
| "py_split (c # cs) =
     (if c = CHR '','' then [] # py_split cs
      else (case py_split cs of [] \<Rightarrow> [[c]] | w # ws \<Rightarrow> (c # w) # ws))"

text \<open>\<^verbatim>\<open>",".join(parts)\<close>.\<close>

fun py_join :: "string list \<Rightarrow> string" where
  "py_join [] = []"
| "py_join [p] = p"
| "py_join (p # q # ps) = p @ CHR '','' # py_join (q # ps)"

text \<open>
  \<^verbatim>\<open>int(s)\<close> in base 10: blanks around, an optional sign, then decimal digits in which
  single underscores may separate digits; anything else raises ValueError. (The
  interpreter's configurable limit on the number of digits is not modelled.)
\<close>

definition is_digit :: "char \<Rightarrow> bool" where
  "is_digit c = (48 \<le> (of_char c :: nat) \<and> (of_char c :: nat) \<le> 57)"

fun digits_ok :: "string \<Rightarrow> bool" where
  "digits_ok [] = False"
| "digits_ok [c] = is_digit c"
| "digits_ok (c # d # r) = (is_digit c \<and> (if d = CHR ''_'' then digits_ok r else digits_ok (d # r)))"

definition digits_value :: "string \<Rightarrow> int" where
  "digits_value ds = foldl (\<lambda>a c. 10 * a + (of_char c - 48)) 0 ds"

definition py_int :: "string \<Rightarrow> error + int" where
  "py_int s =
     (let t = rev (dropWhile is_int_space (rev (dropWhile is_int_space s)));
          neg = (t \<noteq> [] \<and> hd t = CHR ''-'');
          body = (if t \<noteq> [] \<and> (hd t = CHR ''-'' \<or> hd t = CHR ''+'') then tl t else t)
      in if digits_ok body
         then Inr ((if neg then - 1 else 1) * digits_value (filter (\<lambda>c. c \<noteq> CHR ''_'') body))
         else Inl ValueError)"

text \<open>
  \<^verbatim>\<open>ord(c.upper())\<close> for one character \<open>c\<close>. Within Latin-1 the lower-case letters
  move down by 32, except for three: y-diaeresis (255) and the micro sign (181), whose
  capitals lie outside Latin-1, and sharp s (223), whose upper case is the two characters
  SS, on which \<^verbatim>\<open>ord\<close> raises TypeError.
\<close>

definition py_ord_upper :: "char \<Rightarrow> error + int" where
  "py_ord_upper c =
     (let k = (of_char c :: int)
      in if (97 \<le> k \<and> k \<le> 122) \<or> (224 \<le> k \<and> k \<le> 254 \<and> k \<noteq> 247) then Inr (k - 32)
         else if k = 255 then Inr 376
         else if k = 181 then Inr 924
         else if k = 223 then Inl TypeError
         else Inr k)"

subsection \<open>\<^verbatim>\<open>utils.py\<close>: constants and coordinate text\<close>

definition BOARD_SIZE :: int where
  "BOARD_SIZE = 10"

definition SHIP_SIZES :: "nat list" where
  "SHIP_SIZES = [4, 3, 3, 2, 2, 2, 1, 1, 1, 1]"

text \<open>The f-string \<^verbatim>\<open>f"{chr(c[1] + 65)}{c[0] + 1}"\<close> shared by both encoders.\<close>

definition format_coord :: "coord \<Rightarrow> error + string" where
  "format_coord c = bind_res (py_chr (snd c + 65)) (\<lambda>letter. Inr (letter # py_str (fst c + 1)))"

fun format_coords :: "coord list \<Rightarrow> error + string list" where
  "format_coords [] = Inr []"
| "format_coords (c # cs) =
     bind_res (format_coord c) (\<lambda>p. bind_res (format_coords cs) (\<lambda>ps. Inr (p # ps)))"

text \<open>\<^verbatim>\<open>coords_to_str\<close> takes either one coordinate (a tuple) or a list of them.\<close>

datatype coords_arg = Tuple coord | CoordList "coord list"

fun coords_to_str :: "coords_arg \<Rightarrow> error + string" where
  "coords_to_str (Tuple c) = format_coord c"
| "coords_to_str (CoordList cs) = bind_res (format_coords cs) (\<lambda>ps. Inr (py_join ps))"

definition coord_to_human :: "coord \<Rightarrow> error + string" where
  "coord_to_human coord =
     (case coord of (row, col) \<Rightarrow>
        bind_res (py_chr (col + 65)) (\<lambda>letter. Inr (letter # py_str (row + 1))))"

text \<open>
  One iteration of the loop of \<^verbatim>\<open>str_to_coords\<close>: the row is parsed first, so an
  empty cell raises ValueError from \<^verbatim>\<open>int\<close> before \<^verbatim>\<open>cell[0]\<close> can raise IndexError.
\<close>

definition parse_cell :: "string \<Rightarrow> error + coord" where
  "parse_cell cell0 =
     (let cell = py_strip cell0
      in bind_res (py_int (drop 1 cell)) (\<lambda>n.
           bind_res (py_index cell 0) (\<lambda>ch.
             bind_res (py_ord_upper ch) (\<lambda>k. Inr (n - 1, k - 65)))))"

fun parse_cells :: "string list \<Rightarrow> error + coord list" where
  "parse_cells [] = Inr []"
| "parse_cells (cell # cells) =
     bind_res (parse_cell cell) (\<lambda>c. bind_res (parse_cells cells) (\<lambda>cs. Inr (c # cs)))"

definition str_to_coords :: "string \<Rightarrow> error + ship" where
  "str_to_coords s = parse_cells (py_split s)"

subsection \<open>\<^verbatim>\<open>utils.py\<close>: board geometry and the fleet validator\<close>

definition in_bounds :: "coord \<Rightarrow> bool" where
  "in_bounds coord =
     (0 \<le> fst coord \<and> fst coord < BOARD_SIZE \<and> 0 \<le> snd coord \<and> snd coord < BOARD_SIZE)"

definition directions :: "coord list" where
  "directions = [(- 1, 0), (1, 0), (0, - 1), (0, 1), (- 1, - 1), (- 1, 1), (1, - 1), (1, 1)]"

definition get_adjacent_and_diagonal_cells :: "coord \<Rightarrow> coord list" where
  "get_adjacent_and_diagonal_cells coord =
     (case coord of (row, col) \<Rightarrow>
        map (\<lambda>(dr, dc). (row + dr, col + dc))
          (filter (\<lambda>(dr, dc). in_bounds (row + dr, col + dc)) directions))"

text \<open>
  The three nested loops of \<^verbatim>\<open>ships_touch_or_overlap\<close>, which return True at the first
  hit. A ship that contains the coordinate is passed over, whichever ship it is.
\<close>

definition ships_touch_or_overlap :: "ship list \<Rightarrow> bool" where
  "ships_touch_or_overlap ships =
     list_ex (\<lambda>ship.
       list_ex (\<lambda>coord.
         list_ex (\<lambda>other_ship.
           coord \<notin> set other_ship \<and>
           list_ex (\<lambda>cell. cell \<in> set other_ship) (get_adjacent_and_diagonal_cells coord))
         ships)
       ship)
     ships"

text \<open>
  The body of the loop over ships in \<^verbatim>\<open>validate_ship_fleet\<close>: \<open>Inr None\<close> when the
  ship passes, \<open>Inr (Some reason)\<close> when it is rejected. \<^verbatim>\<open>min\<close> of an empty list
  raises ValueError.
\<close>

definition check_ship :: "ship \<Rightarrow> error + string option" where
  "check_ship ship =
     (if \<not> list_all in_bounds ship then Inr (Some ''Ship coordinates out of bounds.'')
      else
        let rows = map fst ship; cols = map snd ship
        in if \<not> (list_all (\<lambda>r. r = hd rows) rows \<or> list_all (\<lambda>c. c = hd cols) cols)
           then Inr (Some ''Ship is not a straight line.'')
           else if ship = [] then Inl ValueError
           else if sort rows \<noteq> [Min (set rows)..Max (set rows)]
                   \<and> sort cols \<noteq> [Min (set cols)..Max (set cols)]
           then Inr (Some ''Ship has gaps in its placement.'')
           else Inr None)"

fun check_ships :: "ship list \<Rightarrow> error + string option" where
  "check_ships [] = Inr None"
| "check_ships (ship # ships) =
     bind_res (check_ship ship) (\<lambda>r. case r of Some reason \<Rightarrow> Inr (Some reason) | None \<Rightarrow> check_ships ships)"

definition validate_ship_fleet :: "ship list \<Rightarrow> error + bool \<times> string option" where
  "validate_ship_fleet ships =
     (if sort (map length ships) \<noteq> sort SHIP_SIZES
      then Inr (False, Some ''Fleet sizes do not match required configuration.'')
      else bind_res (check_ships ships) (\<lambda>r.
        case r of
          Some reason \<Rightarrow> Inr (False, Some reason)
        | None \<Rightarrow>
            if ships_touch_or_overlap ships then Inr (False, Some ''Ships cannot touch or overlap.'')
            else Inr (True, None)))"

subsection \<open>\<^verbatim>\<open>gameplay.py\<close>: boards and the game state\<close>

text \<open>
  A board is a list of rows, each a list of one-character strings: blank, \<open>H\<close>,
  \<open>M\<close> on an attack board, blank or \<open>S\<close> on a ship-location board. The rows of the
  boards made by \<^verbatim>\<open>__init__\<close> and \<^verbatim>\<open>create_ship_board\<close> are separate objects, so
  writing one cell changes one row of one board, which is what the list update says.
\<close>

type_synonym board = "char list list"

definition board_get :: "board \<Rightarrow> int \<Rightarrow> int \<Rightarrow> error + char" where
  "board_get b row col = bind_res (py_index b row) (\<lambda>line. py_index line col)"

definition board_set :: "board \<Rightarrow> int \<Rightarrow> int \<Rightarrow> char \<Rightarrow> error + board" where
  "board_set b row col v =
     bind_res (py_pos (length b) row) (\<lambda>i.
       bind_res (py_pos (length (b ! i)) col) (\<lambda>j. Inr (b[i := (b ! i)[j := v]])))"

definition blank_board :: board where
  "blank_board = replicate (nat BOARD_SIZE) (replicate (nat BOARD_SIZE) (CHR '' ''))"

datatype mode = RANDOM | HUNT | LOCKED

datatype orientation = Horizontal | Vertical

datatype side = Player | Bot

datatype move_result = Invalid | Miss | Hit | Sink

record GameState =
  turn_number :: int
  player_ships :: "ship list"
  bot_ships :: "ship list"
  player_board :: board
  bot_board :: board
  player_board_ships :: board
  bot_board_ships :: board
  bot_mode :: mode
  bot_hit_chain :: "coord list"
  bot_last_hit :: "coord option"
  bot_orientation :: "orientation option"
  current_turn :: side
  player_gets_extra_shot :: bool
  bot_gets_extra_shot :: bool

fun place_ship :: "ship \<Rightarrow> board \<Rightarrow> error + board" where
  "place_ship [] b = Inr b"
| "place_ship ((row, col) # cs) b =
     (if in_bounds (row, col) then bind_res (board_set b row col (CHR ''S'')) (place_ship cs)
      else place_ship cs b)"

fun place_ships :: "ship list \<Rightarrow> board \<Rightarrow> error + board" where
  "place_ships [] b = Inr b"
| "place_ships (ship # ships) b = bind_res (place_ship ship b) (place_ships ships)"

definition create_ship_board :: "ship list \<Rightarrow> error + board" where
  "create_ship_board ships = place_ships ships blank_board"

text \<open>\<^verbatim>\<open>GameState.__init__\<close>.\<close>

definition init_state :: "ship list \<Rightarrow> ship list \<Rightarrow> error + GameState" where
  "init_state p_ships b_ships =
     bind_res (create_ship_board p_ships) (\<lambda>p_board_ships.
       bind_res (create_ship_board b_ships) (\<lambda>b_board_ships.
         Inr \<lparr> turn_number = 0, player_ships = p_ships, bot_ships = b_ships,
               player_board = blank_board, bot_board = blank_board,
               player_board_ships = p_board_ships, bot_board_ships = b_board_ships,
               bot_mode = RANDOM, bot_hit_chain = [], bot_last_hit = None,
               bot_orientation = None, current_turn = Player,
               player_gets_extra_shot = False, bot_gets_extra_shot = False \<rparr>))"

subsection \<open>\<^verbatim>\<open>gameplay.py\<close>: resolving a move\<close>

text \<open>
  \<^verbatim>\<open>all(board[row][col] == "H" for (row, col) in ship)\<close>: it stops at the first cell
  that is not \<open>H\<close>, and a read out of range raises.
\<close>

fun all_hit :: "board \<Rightarrow> ship \<Rightarrow> error + bool" where
  "all_hit b [] = Inr True"
| "all_hit b ((row, col) # cs) =
     bind_res (board_get b row col) (\<lambda>v. if v = CHR ''H'' then all_hit b cs else Inr False)"

fun check_if_ship_sunk :: "coord \<Rightarrow> ship list \<Rightarrow> board \<Rightarrow> error + bool" where
  "check_if_ship_sunk coord [] b = Inr False"
| "check_if_ship_sunk coord (ship # ships) b =
     (if coord \<in> set ship
      then bind_res (all_hit b ship) (\<lambda>sunk.
             if sunk then Inr True else check_if_ship_sunk coord ships b)
      else check_if_ship_sunk coord ships b)"

text \<open>
  The set \<^verbatim>\<open>ship_cells\<close> collected in \<^verbatim>\<open>mark_surrounding_cells_as_miss\<close>, as the
  list of its elements in the order of insertion, and the loop that turns the blank ones
  among them into \<open>M\<close>. Each step writes only the cell it has just read, so the order
  in which Python walks the set does not matter.
\<close>

definition surrounding_cells :: "ship \<Rightarrow> coord list" where
  "surrounding_cells ship =
     remdups (filter in_bounds (concat (map get_adjacent_and_diagonal_cells ship)))"

fun mark_cells :: "coord list \<Rightarrow> board \<Rightarrow> error + board" where
  "mark_cells [] b = Inr b"
| "mark_cells ((r, c) # cs) b =
     bind_res (board_get b r c) (\<lambda>v.
       if v = CHR '' '' then bind_res (board_set b r c (CHR ''M'')) (mark_cells cs)
       else mark_cells cs b)"

text \<open>The loop ends (\<^verbatim>\<open>break\<close>) at the first ship that contains the coordinate.\<close>

fun mark_surrounding_cells_as_miss :: "coord \<Rightarrow> ship list \<Rightarrow> board \<Rightarrow> error + board" where
  "mark_surrounding_cells_as_miss coord [] b = Inr b"
| "mark_surrounding_cells_as_miss coord (ship # ships) b =
     (if coord \<in> set ship
      then bind_res (all_hit b ship) (\<lambda>sunk.
             if sunk then mark_cells (surrounding_cells ship) b else Inr b)
      else mark_surrounding_cells_as_miss coord ships b)"

definition apply_move ::
  "board \<Rightarrow> board \<Rightarrow> ship list \<Rightarrow> coord \<Rightarrow> error + (move_result \<times> bool) \<times> board" where
  "apply_move b ship_board ships coord =
     (case coord of (row, col) \<Rightarrow>
        if \<not> in_bounds coord then Inr ((Invalid, False), b)
        else bind_res (board_get b row col) (\<lambda>seen.
          if seen = CHR ''M'' \<or> seen = CHR ''H'' then Inr ((Invalid, False), b)
          else bind_res (board_get ship_board row col) (\<lambda>under.
            if under = CHR ''S''
            then bind_res (board_set b row col (CHR ''H'')) (\<lambda>b1.
                   bind_res (check_if_ship_sunk coord ships b1) (\<lambda>ship_destroyed.
                     if ship_destroyed
                     then bind_res (mark_surrounding_cells_as_miss coord ships b1) (\<lambda>b2.
                            Inr ((Sink, True), b2))
                     else Inr ((Hit, False), b1)))
            else bind_res (board_set b row col (CHR ''M'')) (\<lambda>b1. Inr ((Miss, False), b1)))))"

definition apply_player_move ::
  "GameState \<Rightarrow> coord \<Rightarrow> error + (move_result \<times> bool) \<times> GameState" where
  "apply_player_move s coord =
     bind_res (apply_move (bot_board s) (bot_board_ships s) (bot_ships s) coord) (\<lambda>(res, b).
       Inr (res, s\<lparr>bot_board := b\<rparr>))"

definition apply_bot_move ::
  "GameState \<Rightarrow> coord \<Rightarrow> error + (move_result \<times> bool) \<times> GameState" where
  "apply_bot_move s coord =
     bind_res (apply_move (player_board s) (player_board_ships s) (player_ships s) coord) (\<lambda>(res, b).
       Inr (res, s\<lparr>player_board := b\<rparr>))"

text \<open>The loop shared by \<^verbatim>\<open>all_player_ships_sunk\<close> and \<^verbatim>\<open>all_bot_ships_sunk\<close>.\<close>

fun every_ship_hit :: "board \<Rightarrow> ship list \<Rightarrow> error + bool" where
  "every_ship_hit b [] = Inr True"
| "every_ship_hit b (ship # ships) =
     bind_res (all_hit b ship) (\<lambda>sunk. if \<not> sunk then Inr False else every_ship_hit b ships)"

definition all_player_ships_sunk :: "GameState \<Rightarrow> error + bool" where
  "all_player_ships_sunk s = every_ship_hit (player_board s) (player_ships s)"

definition all_bot_ships_sunk :: "GameState \<Rightarrow> error + bool" where
  "all_bot_ships_sunk s = every_ship_hit (bot_board s) (bot_ships s)"

definition next_turn :: "GameState \<Rightarrow> GameState" where
  "next_turn s =
     (let s1 = (if \<not> (player_gets_extra_shot s \<or> bot_gets_extra_shot s)
                then s\<lparr>turn_number := turn_number s + 1\<rparr> else s)
      in if player_gets_extra_shot s1 then s1\<lparr>current_turn := Player\<rparr>
         else if bot_gets_extra_shot s1 then s1\<lparr>current_turn := Bot\<rparr>
         else s1\<lparr>current_turn := (if current_turn s1 = Player then Bot else Player)\<rparr>)"

definition player_take_turn :: "GameState \<Rightarrow> coord \<Rightarrow> error + (coord \<times> move_result) \<times> GameState" where
  "player_take_turn s coord =
     bind_res (apply_player_move s coord) (\<lambda>((result, ship_destroyed), s1).
       Inr ((coord, result),
            (if result = Hit \<or> result = Sink then s1\<lparr>player_gets_extra_shot := True\<rparr>
             else s1\<lparr>player_gets_extra_shot := False\<rparr>)))"

subsection \<open>\<^verbatim>\<open>gameplay.py\<close>: the targeting AI\<close>

text \<open>
  The two sources of randomness are arguments: \<open>rnd\<close> is a pair of naturals, the
  first deciding \<^verbatim>\<open>random.choice\<close> (and the first \<^verbatim>\<open>random.randint\<close>), the second
  the second \<^verbatim>\<open>random.randint\<close>. Every outcome of the Python calls is the outcome
  for some \<open>rnd\<close>. The choosing functions return the move with the state, since they
  assign to the AI's fields.
\<close>

type_synonym rnd = "nat \<times> nat"

definition all_coords :: "coord list" where
  "all_coords = concat (map (\<lambda>r. map (\<lambda>c. (r, c)) [0..BOARD_SIZE - 1]) [0..BOARD_SIZE - 1])"

fun blank_cells :: "board \<Rightarrow> coord list \<Rightarrow> error + coord list" where
  "blank_cells b [] = Inr []"
| "blank_cells b ((r, c) # cs) =
     bind_res (board_get b r c) (\<lambda>v.
       bind_res (blank_cells b cs) (\<lambda>rest. Inr (if v = CHR '' '' then (r, c) # rest else rest)))"

definition choose_random_move :: "rnd \<Rightarrow> GameState \<Rightarrow> error + coord \<times> GameState" where
  "choose_random_move rnd s =
     bind_res (blank_cells (player_board s) all_coords) (\<lambda>available_moves.
       if available_moves = []
       then Inr ((int (fst rnd mod nat BOARD_SIZE), int (snd rnd mod nat BOARD_SIZE)), s)
       else Inr (available_moves ! (fst rnd mod length available_moves), s))"

definition hunt_directions :: "orientation option \<Rightarrow> coord list" where
  "hunt_directions ori =
     (if ori = Some Horizontal then [(0, - 1), (0, 1), (- 1, 0), (1, 0)]
      else if ori = Some Vertical then [(- 1, 0), (1, 0), (0, - 1), (0, 1)]
      else [(- 1, 0), (1, 0), (0, - 1), (0, 1)])"

text \<open>The loop over directions around one cell: the first blank in-bounds neighbour.\<close>

fun probe_around :: "board \<Rightarrow> coord \<Rightarrow> coord list \<Rightarrow> error + coord option" where
  "probe_around b (row, col) [] = Inr None"
| "probe_around b (row, col) ((dr, dc) # ds) =
     (if in_bounds (row + dr, col + dc)
      then bind_res (board_get b (row + dr) (col + dc)) (\<lambda>v.
             if v = CHR '' '' then Inr (Some (row + dr, col + dc))
             else probe_around b (row, col) ds)
      else probe_around b (row, col) ds)"

text \<open>The loop over the other hits of the chain: the hit probed from, and the move.\<close>

fun probe_chain ::
  "board \<Rightarrow> coord option \<Rightarrow> coord list \<Rightarrow> coord list \<Rightarrow> error + (coord \<times> coord) option" where
  "probe_chain b last_hit ds [] = Inr None"
| "probe_chain b last_hit ds (hit # hits) =
     (if Some hit \<noteq> last_hit
      then bind_res (probe_around b hit ds) (\<lambda>found.
             case found of Some mv \<Rightarrow> Inr (Some (hit, mv)) | None \<Rightarrow> probe_chain b last_hit ds hits)
      else probe_chain b last_hit ds hits)"

definition choose_hunt_move :: "rnd \<Rightarrow> GameState \<Rightarrow> error + coord \<times> GameState" where
  "choose_hunt_move rnd s =
     (case bot_last_hit s of
        None \<Rightarrow> choose_random_move rnd (s\<lparr>bot_mode := RANDOM\<rparr>)
      | Some last_hit \<Rightarrow>
          let ds = hunt_directions (bot_orientation s)
          in bind_res (probe_around (player_board s) last_hit ds) (\<lambda>near.
               case near of
                 Some mv \<Rightarrow> Inr (mv, s)
               | None \<Rightarrow>
                   bind_res (probe_chain (player_board s) (bot_last_hit s) ds (bot_hit_chain s)) (\<lambda>far.
                     case far of
                       Some (hit, mv) \<Rightarrow> Inr (mv, s\<lparr>bot_last_hit := Some hit\<rparr>)
                     | None \<Rightarrow>
                         choose_random_move rnd
                           (s\<lparr>bot_mode := RANDOM, bot_hit_chain := [], bot_last_hit := None,
                              bot_orientation := None\<rparr>))))"

definition infer_orientation :: "GameState \<Rightarrow> GameState" where
  "infer_orientation s =
     (if length (bot_hit_chain s) < 2 then s
      else
        let sorted_hits = sort (bot_hit_chain s)
        in if list_all (\<lambda>hit. fst hit = fst (hd sorted_hits)) sorted_hits
           then s\<lparr>bot_orientation := Some Horizontal\<rparr>
           else if list_all (\<lambda>hit. snd hit = snd (hd sorted_hits)) sorted_hits
           then s\<lparr>bot_orientation := Some Vertical\<rparr>
           else s\<lparr>bot_orientation := None\<rparr>)"

text \<open>
  The probes along the locked line. Going down from the lowest hit the loop skips cells
  that are not blank and stops below index 0; going up it stops at \<^verbatim>\<open>BOARD_SIZE\<close>.
  The cell is read whenever the moving index passes its one-sided test.
\<close>

fun probe_before :: "(int \<Rightarrow> error + char) \<Rightarrow> int \<Rightarrow> nat list \<Rightarrow> error + int option" where
  "probe_before line low [] = Inr None"
| "probe_before line low (offset # offsets) =
     (if low - int offset \<ge> 0
      then bind_res (line (low - int offset)) (\<lambda>v.
             if v = CHR '' '' then Inr (Some (low - int offset))
             else probe_before line low offsets)
      else Inr None)"

fun probe_after :: "(int \<Rightarrow> error + char) \<Rightarrow> int \<Rightarrow> nat list \<Rightarrow> error + int option" where
  "probe_after line high [] = Inr None"
| "probe_after line high (offset # offsets) =
     (if high + int offset < BOARD_SIZE
      then bind_res (line (high + int offset)) (\<lambda>v.
             if v = CHR '' '' then Inr (Some (high + int offset))
             else probe_after line high offsets)
      else Inr None)"

text \<open>The scan of one gap, \<^verbatim>\<open>range(current + 1, next)\<close>, and the loop over the gaps.\<close>

fun scan_gap :: "(int \<Rightarrow> error + char) \<Rightarrow> int list \<Rightarrow> error + int option" where
  "scan_gap line [] = Inr None"
| "scan_gap line (k # ks) =
     bind_res (line k) (\<lambda>v. if v = CHR '' '' then Inr (Some k) else scan_gap line ks)"

fun probe_gaps :: "(int \<Rightarrow> error + char) \<Rightarrow> int list \<Rightarrow> error + int option" where
  "probe_gaps line (current # next_hit # rest) =
     (if next_hit - current > 1
      then bind_res (scan_gap line [current + 1..next_hit - 1]) (\<lambda>found.
             case found of Some k \<Rightarrow> Inr (Some k) | None \<Rightarrow> probe_gaps line (next_hit # rest))
      else probe_gaps line (next_hit # rest))"
| "probe_gaps line _ = Inr None"

text \<open>
  The three searches of a locked move along one line, in the order of the source: before
  the lowest hit, after the highest, then the gaps between hits that follow each other
  in the sorted chain. \<open>along\<close> lists the moving index of the sorted hits.
\<close>

definition probe_line :: "(int \<Rightarrow> error + char) \<Rightarrow> int list \<Rightarrow> error + int option" where
  "probe_line line along =
     bind_res (probe_before line (Min (set along)) [1, 2, 3, 4]) (\<lambda>first.
       case first of
         Some k \<Rightarrow> Inr (Some k)
       | None \<Rightarrow>
           bind_res (probe_after line (Max (set along)) [1, 2, 3, 4]) (\<lambda>second.
             case second of
               Some k \<Rightarrow> Inr (Some k)
             | None \<Rightarrow> probe_gaps line along))"

definition choose_locked_horizontal_move ::
  "rnd \<Rightarrow> GameState \<Rightarrow> coord list \<Rightarrow> error + coord \<times> GameState" where
  "choose_locked_horizontal_move rnd s sorted_hits =
     (if sorted_hits = [] then Inl IndexError
      else
        let row = fst (hd sorted_hits)
        in bind_res (probe_line (\<lambda>col. board_get (player_board s) row col) (map snd sorted_hits)) (\<lambda>found.
             case found of
               Some col \<Rightarrow> Inr ((row, col), s)
             | None \<Rightarrow> choose_hunt_move rnd (s\<lparr>bot_mode := HUNT\<rparr>)))"

definition choose_locked_vertical_move ::
  "rnd \<Rightarrow> GameState \<Rightarrow> coord list \<Rightarrow> error + coord \<times> GameState" where
  "choose_locked_vertical_move rnd s sorted_hits =
     (if sorted_hits = [] then Inl IndexError
      else
        let col = snd (hd sorted_hits)
        in bind_res (probe_line (\<lambda>row. board_get (player_board s) row col) (map fst sorted_hits)) (\<lambda>found.
             case found of
               Some row \<Rightarrow> Inr ((row, col), s)
             | None \<Rightarrow> choose_hunt_move rnd (s\<lparr>bot_mode := HUNT\<rparr>)))"

text \<open>
  \<^verbatim>\<open>choose_locked_move\<close> calls itself once the orientation has been inferred; the call
  finds an orientation and does not recurse again.
\<close>

function choose_locked_move :: "rnd \<Rightarrow> GameState \<Rightarrow> error + coord \<times> GameState" where
  "choose_locked_move rnd s =
     (if length (bot_hit_chain s) < 2 then choose_hunt_move rnd (s\<lparr>bot_mode := HUNT\<rparr>)
      else if bot_orientation s = Some Horizontal
      then choose_locked_horizontal_move rnd s (sort (bot_hit_chain s))
      else if bot_orientation s = Some Vertical
      then choose_locked_vertical_move rnd s (sort (bot_hit_chain s))
      else if bot_orientation (infer_orientation s) \<noteq> None
      then choose_locked_move rnd (infer_orientation s)
      else choose_hunt_move rnd ((infer_orientation s)\<lparr>bot_mode := HUNT\<rparr>))"
  by pat_completeness auto
termination
proof (relation "measure (\<lambda>(rnd, s). if bot_orientation s = None then 1 else 0)")
  show "wf (measure (\<lambda>(rnd, s). if bot_orientation s = None then 1 else (0::nat)))"
    by simp
next
  fix rnd :: rnd and s :: GameState
  assume "bot_orientation s \<noteq> Some Horizontal" "bot_orientation s \<noteq> Some Vertical"
    and "bot_orientation (infer_orientation s) \<noteq> None"
  moreover have "bot_orientation s = None"
  proof (cases "bot_orientation s")
    case (Some ori)
    with \<open>bot_orientation s \<noteq> Some Horizontal\<close> \<open>bot_orientation s \<noteq> Some Vertical\<close>
    show ?thesis by (cases ori) simp_all
  qed simp
  ultimately show "((rnd, infer_orientation s), (rnd, s))
      \<in> measure (\<lambda>(rnd, s). if bot_orientation s = None then 1 else 0)"
    by simp
qed

declare choose_locked_move.simps [simp del]

definition choose_bot_move :: "rnd \<Rightarrow> GameState \<Rightarrow> error + coord \<times> GameState" where
  "choose_bot_move rnd s =
     (if bot_mode s = RANDOM then choose_random_move rnd s
      else if bot_mode s = HUNT then choose_hunt_move rnd s
      else if bot_mode s = LOCKED then choose_locked_move rnd s
      else choose_random_move rnd s)"

text \<open>
  \<^verbatim>\<open>bot_take_turn\<close> in three parts: the choice of the move, its resolution on the
  player's board, and the update of the AI's fields from the move and its result.
\<close>

definition same_ship_hit :: "coord list \<Rightarrow> coord \<Rightarrow> bool" where
  "same_ship_hit chain bot_move =
     list_ex (\<lambda>hit. (\<bar>fst hit - fst bot_move\<bar> = 1 \<and> snd hit = snd bot_move)
                    \<or> (\<bar>snd hit - snd bot_move\<bar> = 1 \<and> fst hit = fst bot_move)) chain"

definition bot_update_state :: "GameState \<Rightarrow> coord \<Rightarrow> move_result \<Rightarrow> GameState" where
  "bot_update_state s bot_move bot_result =
     (let s1 = (if bot_result = Hit \<or> bot_result = Sink
                then (let s0 = s\<lparr>bot_gets_extra_shot := True\<rparr>
                      in if bot_result = Sink
                         then s0\<lparr>bot_hit_chain := [], bot_last_hit := None, bot_orientation := None\<rparr>
                         else s0)
                else s\<lparr>bot_gets_extra_shot := False\<rparr>)
      in if bot_result = Hit
         then (if bot_hit_chain s1 = []
               then s1\<lparr>bot_hit_chain := [bot_move], bot_last_hit := Some bot_move, bot_mode := HUNT\<rparr>
               else if same_ship_hit (bot_hit_chain s1) bot_move \<and> bot_move \<notin> set (bot_hit_chain s1)
               then (let s2 = s1\<lparr>bot_hit_chain := bot_hit_chain s1 @ [bot_move],
                                  bot_last_hit := Some bot_move\<rparr>
                     in if length (bot_hit_chain s2) \<ge> 2
                        then (let s3 = infer_orientation s2
                              in if bot_orientation s3 \<noteq> None then s3\<lparr>bot_mode := LOCKED\<rparr> else s3)
                        else s2)
               else s1\<lparr>bot_hit_chain := [bot_move], bot_last_hit := Some bot_move,
                       bot_mode := HUNT, bot_orientation := None\<rparr>)
         else if bot_result = Sink
         then s1\<lparr>bot_hit_chain := [], bot_last_hit := None, bot_orientation := None,
                 bot_mode := RANDOM\<rparr>
         else if bot_result = Miss
         then (if bot_mode s1 = HUNT \<and> length (bot_hit_chain s1) \<ge> 2
               then (let s2 = infer_orientation s1
                     in if bot_orientation s2 \<noteq> None then s2\<lparr>bot_mode := LOCKED\<rparr> else s2)
               else s1)
         else s1)"

definition bot_attack :: "GameState \<Rightarrow> coord \<Rightarrow> error + (coord \<times> move_result) \<times> GameState" where
  "bot_attack s bot_move =
     bind_res (apply_bot_move s bot_move) (\<lambda>((bot_result, ship_destroyed), s1).
       Inr ((bot_move, bot_result), bot_update_state s1 bot_move bot_result))"

definition bot_take_turn :: "rnd \<Rightarrow> GameState \<Rightarrow> error + (coord \<times> move_result) \<times> GameState" where
  "bot_take_turn rnd s =
     bind_res (choose_bot_move rnd s) (\<lambda>(bot_move, s1). bot_attack s1 bot_move)"

text \<open>
  The states a game can be in. \<^verbatim>\<open>main\<close> builds the state from two fleets, lets a side
  attack only while \<^verbatim>\<open>current_turn\<close> names it, and calls \<^verbatim>\<open>next_turn\<close> between
  attacks.
\<close>

inductive reachable :: "GameState \<Rightarrow> bool" where
  start: "init_state p_ships b_ships = Inr s \<Longrightarrow> reachable s"
| player_attack:
    "reachable s \<Longrightarrow> current_turn s = Player \<Longrightarrow> player_take_turn s coord = Inr (out, s')
     \<Longrightarrow> reachable s'"
| bot_attack:
    "reachable s \<Longrightarrow> current_turn s = Bot \<Longrightarrow> bot_take_turn rnd s = Inr (out, s')
     \<Longrightarrow> reachable s'"
| handover: "reachable s \<Longrightarrow> reachable (next_turn s)"

subsection \<open>Well-formed boards\<close>

text \<open>
  The shape of every board \<^verbatim>\<open>__init__\<close> builds: \<^verbatim>\<open>BOARD_SIZE\<close> rows of
  \<^verbatim>\<open>BOARD_SIZE\<close> cells. On such a board a cell in bounds is read and written by
  position; an attack board holds nothing but blank, \<open>H\<close> and \<open>M\<close>.
\<close>

definition wf_board :: "board \<Rightarrow> bool" where
  "wf_board b = (length b = nat BOARD_SIZE \<and> list_all (\<lambda>line. length line = nat BOARD_SIZE) b)"

definition cell_at :: "board \<Rightarrow> coord \<Rightarrow> char" where
  "cell_at b c = b ! nat (fst c) ! nat (snd c)"

definition set_cell :: "board \<Rightarrow> coord \<Rightarrow> char \<Rightarrow> board" where
  "set_cell b c v = b[nat (fst c) := (b ! nat (fst c))[nat (snd c) := v]]"

definition attack_board :: "board \<Rightarrow> bool" where
  "attack_board b =
     (wf_board b \<and> list_all (list_all (\<lambda>v. v = CHR '' '' \<or> v = CHR ''H'' \<or> v = CHR ''M'')) b)"

text \<open>
  What holds of every state of a game: both attack boards have the built shape, the hit
  chain holds distinct coordinates in bounds, and an extra-shot flag is only ever set for
  the side whose turn it is.
\<close>

definition state_ok :: "GameState \<Rightarrow> bool" where
  "state_ok s =
     (wf_board (player_board s) \<and> wf_board (bot_board s)
      \<and> list_all in_bounds (bot_hit_chain s) \<and> distinct (bot_hit_chain s)
      \<and> (player_gets_extra_shot s \<longrightarrow> current_turn s = Player)
      \<and> (bot_gets_extra_shot s \<longrightarrow> current_turn s = Bot))"

text \<open>A choice of move that succeeds with a coordinate in bounds whose cell is blank.\<close>

definition legal_move :: "board \<Rightarrow> error + coord \<times> GameState \<Rightarrow> bool" where
  "legal_move b res = (\<exists>mv s1. res = Inr (mv, s1) \<and> in_bounds mv \<and> cell_at b mv = CHR '' '')"

text \<open>
  Two states that differ at most in the four fields of the AI, the hit chain of the
  second being that of the first or empty.
\<close>

definition ai_fields_only :: "GameState \<Rightarrow> GameState \<Rightarrow> bool" where
  "ai_fields_only s s1 =
     (turn_number s1 = turn_number s \<and> player_ships s1 = player_ships s
      \<and> bot_ships s1 = bot_ships s \<and> player_board s1 = player_board s
      \<and> bot_board s1 = bot_board s \<and> player_board_ships s1 = player_board_ships s
      \<and> bot_board_ships s1 = bot_board_ships s \<and> current_turn s1 = current_turn s
      \<and> player_gets_extra_shot s1 = player_gets_extra_shot s
      \<and> bot_gets_extra_shot s1 = bot_gets_extra_shot s
      \<and> (bot_hit_chain s1 = bot_hit_chain s \<or> bot_hit_chain s1 = []))"

text \<open>
  A ship lying in one row (one column) that holds, with any two of its cells, every cell
  between them.
\<close>

definition horizontal_run :: "ship \<Rightarrow> bool" where
  "horizontal_run ship =
     (\<forall>c\<in>set ship. \<forall>c'\<in>set ship.
        fst c = fst c' \<and> (\<forall>k. snd c \<le> k \<and> k \<le> snd c' \<longrightarrow> (fst c, k) \<in> set ship))"

definition vertical_run :: "ship \<Rightarrow> bool" where
  "vertical_run ship =
     (\<forall>c\<in>set ship. \<forall>c'\<in>set ship.
        snd c = snd c' \<and> (\<forall>k. fst c \<le> k \<and> k \<le> fst c' \<longrightarrow> (k, snd c) \<in> set ship))"

subsection \<open>Fleets used in examples\<close>

text \<open>A fleet with the required sizes, every ship straight, contiguous and apart.\<close>

definition sample_fleet :: "ship list" where
  "sample_fleet =
     [[(0, 0), (0, 1), (0, 2), (0, 3)],
      [(2, 0), (2, 1), (2, 2)], [(4, 0), (4, 1), (4, 2)],
      [(6, 0), (6, 1)], [(8, 0), (8, 1)], [(0, 5), (0, 6)],
      [(2, 5)], [(4, 5)], [(6, 5)], [(8, 5)]]"

text \<open>The same fleet with its last ship moved onto the ship before it.\<close>

definition stacked_fleet :: "ship list" where
  "stacked_fleet =
     [[(0, 0), (0, 1), (0, 2), (0, 3)],
      [(2, 0), (2, 1), (2, 2)], [(4, 0), (4, 1), (4, 2)],
      [(6, 0), (6, 1)], [(8, 0), (8, 1)], [(0, 5), (0, 6)],
      [(2, 5)], [(4, 5)], [(6, 5)], [(6, 5)]]"

text \<open>The ship-location board of \<open>sample_fleet\<close>.\<close>

definition sample_ship_board :: board where
  "sample_ship_board =
     [''SSSS SS   '', ''          '', ''SSS  S    '', ''          '', ''SSS  S    '',
      ''          '', ''SS   S    '', ''          '', ''SS   S    '', ''          '']"

text \<open>A game over \<open>sample_fleet\<close> on both sides, before the first move.\<close>

definition sample_state :: GameState where
  "sample_state =
     \<lparr> turn_number = 0, player_ships = sample_fleet, bot_ships = sample_fleet,
       player_board = blank_board, bot_board = blank_board,
       player_board_ships = sample_ship_board, bot_board_ships = sample_ship_board,
       bot_mode = RANDOM, bot_hit_chain = [], bot_last_hit = None,
       bot_orientation = None, current_turn = Player,
       player_gets_extra_shot = False, bot_gets_extra_shot = False \<rparr>"

text \<open>
  A fleet whose second ship of size 3 lies in row 4, columns 2 to 4, and the game over it
  before the first move.
\<close>

definition gap_fleet :: "ship list" where
  "gap_fleet =
     [[(0, 0), (0, 1), (0, 2), (0, 3)],
      [(2, 0), (2, 1), (2, 2)], [(4, 2), (4, 3), (4, 4)],
      [(6, 0), (6, 1)], [(8, 0), (8, 1)], [(0, 5), (0, 6)],
      [(2, 5)], [(4, 7)], [(6, 5)], [(8, 5)]]"

definition gap_ship_board :: board where
  "gap_ship_board =
     [''SSSS SS   '', ''          '', ''SSS  S    '', ''          '', ''  SSS  S  '',
      ''          '', ''SS   S    '', ''          '', ''SS   S    '', ''          '']"

definition gap_state :: GameState where
  "gap_state = sample_state\<lparr>player_ships := gap_fleet, player_board_ships := gap_ship_board\<rparr>"

text \<open>
  A single ship of size 1 in the corner \<open>(0, 0)\<close>: its ship-location board and the
  attack board after it has been sunk. And the attack board after the ship \<open>[(2, 5)]\<close>
  of \<open>sample_fleet\<close> has been sunk by the first move of a game.
\<close>

definition corner_ship_board :: board where
  "corner_ship_board =
     [''S         '', ''          '', ''          '', ''          '', ''          '',
      ''          '', ''          '', ''          '', ''          '', ''          '']"

definition corner_sunk_board :: board where
  "corner_sunk_board =
     [''HM        '', ''MM        '', ''          '', ''          '', ''          '',
      ''          '', ''          '', ''          '', ''          '', ''          '']"

definition sample_sunk_board :: board where
  "sample_sunk_board =
     [''          '', ''    MMM   '', ''    MHM   '', ''    MMM   '', ''          '',
      ''          '', ''          '', ''          '', ''          '', ''          '']"

text \<open>
  The game over \<open>sample_fleet\<close> after these moves: the player misses at
  \<open>(1, 1)\<close>; the bot hits \<open>(0, 0)\<close> and, with its extra shot, misses at
  \<open>(1, 0)\<close>; the player misses at \<open>(3, 3)\<close>; the bot hits \<open>(0, 1)\<close> and is
  locked on row 0.
\<close>

definition locked_state :: GameState where
  "locked_state =
     \<lparr> turn_number = 3, player_ships = sample_fleet, bot_ships = sample_fleet,
       player_board =
         [''HH        '', ''M         '', ''          '', ''          '', ''          '',
          ''          '', ''          '', ''          '', ''          '', ''          ''],
       bot_board =
         [''          '', '' M        '', ''          '', ''   M      '', ''          '',
          ''          '', ''          '', ''          '', ''          '', ''          ''],
       player_board_ships = sample_ship_board, bot_board_ships = sample_ship_board,
       bot_mode = LOCKED, bot_hit_chain = [(0, 0), (0, 1)], bot_last_hit = Some (0, 1),
       bot_orientation = Some Horizontal, current_turn = Bot,
       player_gets_extra_shot = False, bot_gets_extra_shot = True \<rparr>"

section \<open>Properties\<close>

subsection \<open>Reading and writing well-formed boards\<close>

lemma bind_res_simps [simp]:
  "bind_res (Inl e) f = Inl e" "bind_res (Inr x) f = f x"
  by (simp_all add: bind_res_def)

lemma bind_res_eq_Inr: "bind_res m f = Inr y \<longleftrightarrow> (\<exists>x. m = Inr x \<and> f x = Inr y)"
  by (cases m) simp_all

lemma in_bounds_iff: "in_bounds (r, c) \<longleftrightarrow> 0 \<le> r \<and> r < 10 \<and> 0 \<le> c \<and> c < 10"
  by (simp add: in_bounds_def BOARD_SIZE_def)

lemma wf_board_iff: "wf_board b \<longleftrightarrow> length b = 10 \<and> (\<forall>i<10. length (b ! i) = 10)"
  by (auto simp: wf_board_def BOARD_SIZE_def list_all_length)

lemma wf_length: "wf_board b \<Longrightarrow> length b = 10"
  by (simp add: wf_board_iff)

lemma wf_row_length: "wf_board b \<Longrightarrow> 0 \<le> r \<Longrightarrow> r < 10 \<Longrightarrow> length (b ! nat r) = 10"
  by (simp add: wf_board_iff)

lemma board_get_wf:
  "wf_board b \<Longrightarrow> in_bounds (r, c) \<Longrightarrow> board_get b r c = Inr (cell_at b (r, c))"
  by (simp add: board_get_def py_index_def py_pos_def wf_length wf_row_length in_bounds_iff cell_at_def)

lemma board_set_wf:
  "wf_board b \<Longrightarrow> in_bounds (r, c) \<Longrightarrow> board_set b r c v = Inr (set_cell b (r, c) v)"
  by (simp add: board_set_def py_pos_def wf_length wf_row_length in_bounds_iff set_cell_def)

lemma wf_set_cell: "wf_board b \<Longrightarrow> wf_board (set_cell b c v)"
proof (cases "nat (fst c) < length b")
  case True
  assume "wf_board b"
  with True show ?thesis
    by (auto simp: wf_board_def set_cell_def list_all_length nth_list_update)
next
  case False
  assume "wf_board b"
  with False show ?thesis
    by (simp add: set_cell_def list_update_beyond)
qed

lemma cell_at_set_cell:
  "wf_board b \<Longrightarrow> in_bounds c \<Longrightarrow> in_bounds c' \<Longrightarrow>
   cell_at (set_cell b c v) c' = (if c' = c then v else cell_at b c')"
  by (cases c; cases c')
     (auto simp: wf_length wf_row_length in_bounds_iff set_cell_def cell_at_def nth_list_update)

lemma all_hit_wf:
  "wf_board b \<Longrightarrow> list_all in_bounds ship \<Longrightarrow>
   all_hit b ship = Inr (\<forall>c\<in>set ship. cell_at b c = CHR ''H'')"
  by (induction ship) (auto simp: board_get_wf)

lemma every_ship_hit_wf:
  "wf_board b \<Longrightarrow> \<forall>ship\<in>set ships. list_all in_bounds ship \<Longrightarrow>
   every_ship_hit b ships = Inr (\<forall>ship\<in>set ships. \<forall>c\<in>set ship. cell_at b c = CHR ''H'')"
  by (induction ships) (auto simp: all_hit_wf)

lemma all_hit_True_iff:
  "all_hit b ship = Inr True \<longleftrightarrow> (\<forall>c\<in>set ship. board_get b (fst c) (snd c) = Inr (CHR ''H''))"
  by (induction ship) (auto simp: bind_res_eq_Inr split: if_splits)

lemma mark_cells_spec:
  "wf_board b \<Longrightarrow> list_all in_bounds cs \<Longrightarrow>
   \<exists>b'. mark_cells cs b = Inr b' \<and> wf_board b' \<and>
     (\<forall>c. in_bounds c \<longrightarrow>
        cell_at b' c = (if c \<in> set cs \<and> cell_at b c = CHR '' '' then CHR ''M'' else cell_at b c))"
proof (induction cs arbitrary: b)
  case Nil
  then show ?case by simp
next
  case (Cons x cs)
  obtain r c where x: "x = (r, c)" by (cases x)
  from Cons.prems x have inb: "in_bounds (r, c)" and rest: "list_all in_bounds cs" by simp_all
  show ?case
  proof (cases "cell_at b (r, c) = CHR '' ''")
    case True
    let ?b1 = "set_cell b (r, c) (CHR ''M'')"
    have wf1: "wf_board ?b1" using Cons.prems(1) by (rule wf_set_cell)
    from Cons.IH[OF wf1 rest] obtain b' where
      b': "mark_cells cs ?b1 = Inr b'" "wf_board b'"
      "\<And>c'. in_bounds c' \<Longrightarrow>
        cell_at b' c' = (if c' \<in> set cs \<and> cell_at ?b1 c' = CHR '' '' then CHR ''M'' else cell_at ?b1 c')"
      by blast
    have "mark_cells (x # cs) b = Inr b'"
      using True b'(1) Cons.prems(1) inb by (simp add: x board_get_wf board_set_wf)
    moreover have "\<forall>c'. in_bounds c' \<longrightarrow>
        cell_at b' c' = (if c' \<in> set (x # cs) \<and> cell_at b c' = CHR '' '' then CHR ''M'' else cell_at b c')"
      using b'(3) True Cons.prems(1) inb by (auto simp: x cell_at_set_cell)
    ultimately show ?thesis using b'(2) by blast
  next
    case False
    from Cons.IH[OF Cons.prems(1) rest] obtain b' where
      b': "mark_cells cs b = Inr b'" "wf_board b'"
      "\<And>c'. in_bounds c' \<Longrightarrow>
        cell_at b' c' = (if c' \<in> set cs \<and> cell_at b c' = CHR '' '' then CHR ''M'' else cell_at b c')"
      by blast
    have "mark_cells (x # cs) b = Inr b'"
      using False b'(1) Cons.prems(1) inb by (simp add: x board_get_wf)
    moreover have "\<forall>c'. in_bounds c' \<longrightarrow>
        cell_at b' c' = (if c' \<in> set (x # cs) \<and> cell_at b c' = CHR '' '' then CHR ''M'' else cell_at b c')"
      using b'(3) False by (auto simp: x)
    ultimately show ?thesis using b'(2) by blast
  qed
qed

lemma surrounding_in_bounds: "list_all in_bounds (surrounding_cells ship)"
  by (simp add: surrounding_cells_def list_all_iff)

lemma mark_surrounding_frame:
  "wf_board b \<Longrightarrow> mark_surrounding_cells_as_miss coord ships b = Inr b' \<Longrightarrow>
   wf_board b' \<and> (\<forall>c. in_bounds c \<longrightarrow> cell_at b c \<noteq> CHR '' '' \<longrightarrow> cell_at b' c = cell_at b c)"
proof (induction ships)
  case Nil
  then show ?case by simp
next
  case (Cons ship ships)
  show ?case
  proof (cases "coord \<in> set ship")
    case True
    with Cons.prems(2) obtain sunk where
      sunk: "all_hit b ship = Inr sunk"
      "(if sunk then mark_cells (surrounding_cells ship) b else Inr b) = Inr b'"
      by (auto simp: bind_res_eq_Inr)
    show ?thesis
    proof (cases sunk)
      case True
      from mark_cells_spec[OF Cons.prems(1) surrounding_in_bounds, of ship] sunk(2) True
      show ?thesis by auto
    next
      case False
      with sunk(2) Cons.prems(1) show ?thesis by simp
    qed
  next
    case False
    with Cons show ?thesis by simp
  qed
qed

lemma apply_move_out_of_bounds:
  "\<not> in_bounds coord \<Longrightarrow> apply_move b sb ships coord = Inr ((Invalid, False), b)"
  by (cases coord) (simp add: apply_move_def)

lemma apply_move_resolved:
  "wf_board b \<Longrightarrow> in_bounds coord \<Longrightarrow> cell_at b coord = CHR ''H'' \<or> cell_at b coord = CHR ''M''
   \<Longrightarrow> apply_move b sb ships coord = Inr ((Invalid, False), b)"
  by (cases coord) (auto simp: apply_move_def board_get_wf)

lemma apply_move_fresh:
  assumes "wf_board b" "in_bounds coord" "cell_at b coord \<noteq> CHR ''H''" "cell_at b coord \<noteq> CHR ''M''"
    and "apply_move b sb ships coord = Inr ((res, flag), b')"
  shows "(res = Miss \<and> \<not> flag \<and> b' = set_cell b coord (CHR ''M''))
       \<or> (res = Hit \<and> \<not> flag \<and> b' = set_cell b coord (CHR ''H'')
            \<and> check_if_ship_sunk coord ships (set_cell b coord (CHR ''H'')) = Inr False)
       \<or> (res = Sink \<and> flag
            \<and> check_if_ship_sunk coord ships (set_cell b coord (CHR ''H'')) = Inr True
            \<and> mark_surrounding_cells_as_miss coord ships (set_cell b coord (CHR ''H'')) = Inr b')"
  using assms
  by (cases coord)
     (auto simp: apply_move_def board_get_wf board_set_wf bind_res_eq_Inr split: if_splits)

subsection \<open>The examples\<close>

lemma sample_ship_board_eq: "create_ship_board sample_fleet = Inr sample_ship_board"
  by code_simp

lemma sample_state_init: "init_state sample_fleet sample_fleet = Inr sample_state"
  by code_simp

lemma wf_blank_board: "wf_board blank_board"
  by code_simp

subsection \<open>Win detection\<close>

text \<open>
  Claim C4 (win detection exactness). On boards of the built shape and fleets whose
  coordinates are in bounds, \<^verbatim>\<open>all_bot_ships_sunk\<close> returns True exactly when every
  coordinate of every bot ship reads \<open>H\<close> on the bot's attack board, and False as soon
  as one coordinate of one ship does not; \<^verbatim>\<open>all_player_ships_sunk\<close> does the same on
  the player's side.
\<close>

theorem win_detection_exact:
  assumes "wf_board (bot_board s)" and "wf_board (player_board s)"
    and "\<forall>ship\<in>set (bot_ships s). list_all in_bounds ship"
    and "\<forall>ship\<in>set (player_ships s). list_all in_bounds ship"
  shows "all_bot_ships_sunk s
           = Inr (\<forall>ship\<in>set (bot_ships s). \<forall>c\<in>set ship. cell_at (bot_board s) c = CHR ''H'')
       \<and> all_player_ships_sunk s
           = Inr (\<forall>ship\<in>set (player_ships s). \<forall>c\<in>set ship. cell_at (player_board s) c = CHR ''H'')"
  using assms by (simp add: all_bot_ships_sunk_def all_player_ships_sunk_def every_ship_hit_wf)

theorem win_detection_exact_witness:
  "wf_board (bot_board (sample_state\<lparr>player_ships := [[(0, 0)]],
       player_board := set_cell blank_board (0, 0) (CHR ''H'')\<rparr>))
   \<and> all_bot_ships_sunk (sample_state\<lparr>player_ships := [[(0, 0)]],
       player_board := set_cell blank_board (0, 0) (CHR ''H'')\<rparr>) = Inr False
   \<and> all_player_ships_sunk (sample_state\<lparr>player_ships := [[(0, 0)]],
       player_board := set_cell blank_board (0, 0) (CHR ''H'')\<rparr>) = Inr True"
proof -
  let ?s = "sample_state\<lparr>player_ships := [[(0, 0)]],
       player_board := set_cell blank_board (0, 0) (CHR ''H'')\<rparr>"
  have h1: "wf_board (bot_board ?s)" by code_simp
  have h2: "wf_board (player_board ?s)" by code_simp
  have h3: "\<forall>ship\<in>set (bot_ships ?s). list_all in_bounds ship" by code_simp
  have h4: "\<forall>ship\<in>set (player_ships ?s). list_all in_bounds ship" by code_simp
  have v1: "(\<forall>ship\<in>set (bot_ships ?s). \<forall>c\<in>set ship. cell_at (bot_board ?s) c = CHR ''H'') = False"
    by code_simp
  have v2: "(\<forall>ship\<in>set (player_ships ?s). \<forall>c\<in>set ship. cell_at (player_board ?s) c = CHR ''H'') = True"
    by code_simp
  from win_detection_exact[OF h1 h2 h3 h4] show ?thesis
    unfolding v1 v2 using h1 by simp
qed

subsection \<open>Rejected moves\<close>

text \<open>
  Claim C2 (invalid moves). On a board of the built shape \<^verbatim>\<open>apply_move\<close> returns
  Invalid exactly when the coordinate is out of bounds or its cell already reads \<open>H\<close>
  or \<open>M\<close>; an Invalid result leaves the board as it was; and whatever the first
  attack on a coordinate returned, attacking the same coordinate again on the resulting
  board returns Invalid.
\<close>

theorem apply_move_invalid_iff:
  assumes "wf_board b"
  shows "((\<exists>flag b'. apply_move b sb ships coord = Inr ((Invalid, flag), b'))
            \<longleftrightarrow> (\<not> in_bounds coord \<or> cell_at b coord = CHR ''H'' \<or> cell_at b coord = CHR ''M''))
       \<and> (\<forall>flag b'. apply_move b sb ships coord = Inr ((Invalid, flag), b') \<longrightarrow> \<not> flag \<and> b' = b)
       \<and> (\<forall>out b1. apply_move b sb ships coord = Inr (out, b1)
            \<longrightarrow> apply_move b1 sb ships coord = Inr ((Invalid, False), b1))"
proof -
  consider (out) "\<not> in_bounds coord"
    | (seen) "in_bounds coord" "cell_at b coord = CHR ''H'' \<or> cell_at b coord = CHR ''M''"
    | (fresh) "in_bounds coord" "cell_at b coord \<noteq> CHR ''H''" "cell_at b coord \<noteq> CHR ''M''"
    by blast
  then show ?thesis
  proof cases
    case out
    then show ?thesis by (auto simp: apply_move_out_of_bounds)
  next
    case seen
    then show ?thesis using assms by (auto simp: apply_move_resolved)
  next
    case fresh
    have again: "apply_move b1 sb ships coord = Inr ((Invalid, False), b1)"
      if run: "apply_move b sb ships coord = Inr ((res, flag), b1)" for res flag b1
    proof -
      let ?bh = "set_cell b coord (CHR ''H'')"
      have wfh: "wf_board ?bh" using assms by (rule wf_set_cell)
      have hit: "cell_at ?bh coord = CHR ''H''"
        using assms fresh(1) by (simp add: cell_at_set_cell)
      from apply_move_fresh[OF assms fresh run]
      have "wf_board b1 \<and> (cell_at b1 coord = CHR ''H'' \<or> cell_at b1 coord = CHR ''M'')"
      proof (elim disjE conjE)
        assume "b1 = set_cell b coord (CHR ''M'')"
        then show ?thesis using assms fresh(1) by (simp add: wf_set_cell cell_at_set_cell)
      next
        assume "b1 = ?bh"
        then show ?thesis using wfh hit by simp
      next
        assume "mark_surrounding_cells_as_miss coord ships ?bh = Inr b1"
        from mark_surrounding_frame[OF wfh this]
        have "wf_board b1" and "cell_at b1 coord = cell_at ?bh coord"
          using hit fresh(1) by (cases coord, auto)+
        then show ?thesis using hit by simp
      qed
      then show ?thesis using fresh(1) by (auto simp: apply_move_resolved)
    qed
    have not_invalid: "res \<noteq> Invalid"
      if run: "apply_move b sb ships coord = Inr ((res, flag), b1)" for res flag b1
      using apply_move_fresh[OF assms fresh run] by auto
    show ?thesis
      using fresh again not_invalid by auto
  qed
qed

theorem apply_move_invalid_iff_witness:
  "wf_board blank_board
   \<and> apply_move blank_board sample_ship_board sample_fleet (0, 0)
       = Inr ((Hit, False), set_cell blank_board (0, 0) (CHR ''H''))
   \<and> apply_move (set_cell blank_board (0, 0) (CHR ''H'')) sample_ship_board sample_fleet (0, 0)
       = Inr ((Invalid, False), set_cell blank_board (0, 0) (CHR ''H''))"
proof -
  have h: "wf_board blank_board" by code_simp
  have run: "apply_move blank_board sample_ship_board sample_fleet (0, 0)
       = Inr ((Hit, False), set_cell blank_board (0, 0) (CHR ''H''))"
    by code_simp
  from apply_move_invalid_iff[OF h, of sample_ship_board sample_fleet "(0, 0)"] run
  have "apply_move (set_cell blank_board (0, 0) (CHR ''H'')) sample_ship_board sample_fleet (0, 0)
       = Inr ((Invalid, False), set_cell blank_board (0, 0) (CHR ''H''))"
    by blast
  with h run show ?thesis by blast
qed

lemma apply_move_not_sink:
  assumes "apply_move b sb ships coord = Inr ((res, flag), b')" and "res = Hit \<or> res = Miss"
  shows "b' = set_cell b coord (if res = Hit then CHR ''H'' else CHR ''M'')
       \<and> in_bounds coord
       \<and> nat (fst coord) < length b \<and> nat (snd coord) < length (b ! nat (fst coord))
       \<and> b ! nat (fst coord) ! nat (snd coord) \<noteq> (if res = Hit then CHR ''H'' else CHR ''M'')"
  using assms
  by (cases coord)
     (auto simp: apply_move_def board_get_def board_set_def py_index_def py_pos_def set_cell_def
        in_bounds_iff bind_res_eq_Inr split: if_splits)

subsection \<open>What a move leaves alone\<close>

text \<open>
  Claim C10 (frame of move resolution). When \<^verbatim>\<open>apply_move\<close> returns Hit or Miss the
  board it leaves has the same shape, differs from the board it was given at the
  attacked position and agrees with it at every other position. Whatever the result,
  \<^verbatim>\<open>apply_player_move\<close> and \<^verbatim>\<open>apply_bot_move\<close> change no field of the game state
  but the attack board they were called on: the ship-location boards and the fleets are
  as before.
\<close>

theorem apply_move_frame:
  "(apply_move b sb ships coord = Inr ((res, flag), b') \<and> (res = Hit \<or> res = Miss) \<longrightarrow>
      length b' = length b
      \<and> (\<forall>i. length (b' ! i) = length (b ! i))
      \<and> (\<forall>i j. (i, j) \<noteq> (nat (fst coord), nat (snd coord)) \<longrightarrow> b' ! i ! j = b ! i ! j)
      \<and> b' ! nat (fst coord) ! nat (snd coord) \<noteq> b ! nat (fst coord) ! nat (snd coord))
   \<and> (apply_player_move s coord = Inr (out, s') \<longrightarrow>
        s' = s\<lparr>bot_board := bot_board s'\<rparr>
        \<and> bot_board_ships s' = bot_board_ships s \<and> bot_ships s' = bot_ships s)
   \<and> (apply_bot_move s coord = Inr (out, s') \<longrightarrow>
        s' = s\<lparr>player_board := player_board s'\<rparr>
        \<and> player_board_ships s' = player_board_ships s \<and> player_ships s' = player_ships s)"
proof (intro conjI impI)
  assume run: "apply_move b sb ships coord = Inr ((res, flag), b') \<and> (res = Hit \<or> res = Miss)"
  let ?i = "nat (fst coord)" and ?j = "nat (snd coord)"
  let ?v = "if res = Hit then CHR ''H'' else CHR ''M''"
  from run apply_move_not_sink[of b sb ships coord res flag b']
  have b': "b' = set_cell b coord ?v" and i: "?i < length b" and j: "?j < length (b ! ?i)"
    and old: "b ! ?i ! ?j \<noteq> ?v"
    by blast+
  show "length b' = length b" by (simp add: b' set_cell_def)
  show "\<forall>i. length (b' ! i) = length (b ! i)"
    using i by (auto simp: b' set_cell_def nth_list_update)
  show "\<forall>i j. (i, j) \<noteq> (?i, ?j) \<longrightarrow> b' ! i ! j = b ! i ! j"
    using i by (auto simp: b' set_cell_def nth_list_update)
  show "b' ! ?i ! ?j \<noteq> b ! ?i ! ?j"
    using i j old by (simp add: b' set_cell_def)
next
  assume "apply_player_move s coord = Inr (out, s')"
  then have eq: "s' = s\<lparr>bot_board := bot_board s'\<rparr>"
    by (auto simp: apply_player_move_def bind_res_eq_Inr)
  show "s' = s\<lparr>bot_board := bot_board s'\<rparr>" by (rule eq)
  show "bot_board_ships s' = bot_board_ships s" by (subst eq) simp
  show "bot_ships s' = bot_ships s" by (subst eq) simp
next
  assume "apply_bot_move s coord = Inr (out, s')"
  then have eq: "s' = s\<lparr>player_board := player_board s'\<rparr>"
    by (auto simp: apply_bot_move_def bind_res_eq_Inr)
  show "s' = s\<lparr>player_board := player_board s'\<rparr>" by (rule eq)
  show "player_board_ships s' = player_board_ships s" by (subst eq) simp
  show "player_ships s' = player_ships s" by (subst eq) simp
qed

theorem apply_move_frame_witness:
  "apply_move blank_board sample_ship_board sample_fleet (0, 0)
     = Inr ((Hit, False), set_cell blank_board (0, 0) (CHR ''H''))
   \<and> set_cell blank_board (0, 0) (CHR ''H'') ! 0 ! 1 = blank_board ! 0 ! 1
   \<and> set_cell blank_board (0, 0) (CHR ''H'') ! 0 ! 0 \<noteq> blank_board ! 0 ! 0
   \<and> apply_player_move sample_state (1, 1)
       = Inr ((Miss, False), sample_state\<lparr>bot_board := set_cell blank_board (1, 1) (CHR ''M'')\<rparr>)
   \<and> bot_board_ships (sample_state\<lparr>bot_board := set_cell blank_board (1, 1) (CHR ''M'')\<rparr>)
       = bot_board_ships sample_state
   \<and> apply_bot_move sample_state (0, 0)
       = Inr ((Hit, False), sample_state\<lparr>player_board := set_cell blank_board (0, 0) (CHR ''H'')\<rparr>)
   \<and> player_ships (sample_state\<lparr>player_board := set_cell blank_board (0, 0) (CHR ''H'')\<rparr>)
       = player_ships sample_state"
proof -
  have r1: "apply_move blank_board sample_ship_board sample_fleet (0, 0)
     = Inr ((Hit, False), set_cell blank_board (0, 0) (CHR ''H''))"
    by code_simp
  have r2: "apply_player_move sample_state (1, 1)
       = Inr ((Miss, False), sample_state\<lparr>bot_board := set_cell blank_board (1, 1) (CHR ''M'')\<rparr>)"
    by code_simp
  have r3: "apply_bot_move sample_state (0, 0)
       = Inr ((Hit, False), sample_state\<lparr>player_board := set_cell blank_board (0, 0) (CHR ''H'')\<rparr>)"
    by code_simp
  from apply_move_frame[where b = blank_board and sb = sample_ship_board and ships = sample_fleet
      and coord = "(0, 0)" and res = Hit and flag = False
      and b' = "set_cell blank_board (0, 0) (CHR ''H'')" and s = sample_state
      and out = "(Hit, False)"
      and s' = "sample_state\<lparr>player_board := set_cell blank_board (0, 0) (CHR ''H'')\<rparr>"] r1 r3
  have a: "set_cell blank_board (0, 0) (CHR ''H'') ! 0 ! 1 = blank_board ! 0 ! 1"
      "set_cell blank_board (0, 0) (CHR ''H'') ! 0 ! 0 \<noteq> blank_board ! 0 ! 0"
    and c: "player_ships (sample_state\<lparr>player_board := set_cell blank_board (0, 0) (CHR ''H'')\<rparr>)
       = player_ships sample_state"
    by simp_all
  from apply_move_frame[where coord = "(1, 1)" and s = sample_state and out = "(Miss, False)"
      and s' = "sample_state\<lparr>bot_board := set_cell blank_board (1, 1) (CHR ''M'')\<rparr>"] r2
  have b: "bot_board_ships (sample_state\<lparr>bot_board := set_cell blank_board (1, 1) (CHR ''M'')\<rparr>)
       = bot_board_ships sample_state"
    by simp
  from r1 r2 r3 a b c show ?thesis by blast
qed

subsection \<open>Coordinate text\<close>

lemma digit_range: "0 \<le> (k::int) \<Longrightarrow> k < 10 \<Longrightarrow>
  k = 0 \<or> k = 1 \<or> k = 2 \<or> k = 3 \<or> k = 4 \<or> k = 5 \<or> k = 6 \<or> k = 7 \<or> k = 8 \<or> k = 9"
  by arith

lemma py_split_no_comma: "CHR '','' \<notin> set s \<Longrightarrow> py_split s = [s]"
  by (induction s) auto

lemma py_strip_clean: "s \<noteq> [] \<Longrightarrow> \<not> is_space (hd s) \<Longrightarrow> \<not> is_space (last s) \<Longrightarrow> py_strip s = s"
proof -
  assume s: "s \<noteq> []" and h: "\<not> is_space (hd s)" and l: "\<not> is_space (last s)"
  from s h have 1: "dropWhile is_space s = s" by (cases s) simp_all
  from s l have 2: "dropWhile is_space (rev s) = rev s" by (cases "rev s") (simp_all add: last_rev hd_rev)
  show ?thesis by (simp add: py_strip_def 1 2)
qed

lemma row_text:
  assumes "0 \<le> row" "row < 10"
  shows "py_int (py_str (row + 1)) = Inr (row + 1) \<and> py_str (row + 1) \<noteq> []
       \<and> CHR '','' \<notin> set (py_str (row + 1)) \<and> \<not> is_space (last (py_str (row + 1)))"
  using digit_range[OF assms] by (elim disjE; simp only: ; code_simp)

lemma col_text:
  assumes "0 \<le> col" "col < 10"
  shows "py_ord_upper (char_of (65 + col)) = Inr (65 + col)
       \<and> py_ord_upper (char_of (97 + col)) = Inr (65 + col)
       \<and> char_of (65 + col) \<noteq> CHR '','' \<and> char_of (97 + col) \<noteq> CHR '',''
       \<and> \<not> is_space (char_of (65 + col)) \<and> \<not> is_space (char_of (97 + col))"
  using digit_range[OF assms] by (elim disjE; simp only: ; code_simp)

lemma parse_letter_digits:
  assumes "py_int ds = Inr n" "ds \<noteq> []" "CHR '','' \<notin> set ds" "\<not> is_space (last ds)"
    and "py_ord_upper l = Inr k" "l \<noteq> CHR '',''" "\<not> is_space l"
  shows "str_to_coords (l # ds) = Inr [(n - 1, k - 65)]"
proof -
  have "py_split (l # ds) = [l # ds]" using assms by (intro py_split_no_comma) simp
  moreover have "py_strip (l # ds) = l # ds" using assms by (intro py_strip_clean) simp_all
  ultimately show ?thesis
    using assms by (simp add: str_to_coords_def parse_cell_def py_index_def py_pos_def)
qed

lemma roundtrip_in_bounds:
  assumes "in_bounds (row, col)"
  shows "coord_to_human (row, col) = Inr (char_of (65 + col) # py_str (row + 1))
       \<and> coords_to_str (Tuple (row, col)) = Inr (char_of (65 + col) # py_str (row + 1))
       \<and> coords_to_str (CoordList [(row, col)]) = Inr (char_of (65 + col) # py_str (row + 1))
       \<and> str_to_coords (char_of (65 + col) # py_str (row + 1)) = Inr [(row, col)]
       \<and> str_to_coords (char_of (97 + col) # py_str (row + 1)) = Inr [(row, col)]"
proof -
  from assms have r: "0 \<le> row" "row < 10" and c: "0 \<le> col" "col < 10"
    by (simp_all add: in_bounds_iff)
  have chr: "py_chr (col + 65) = Inr (char_of (65 + col))"
    using c by (simp add: py_chr_def add.commute)
  note rt = row_text[OF r] and ct = col_text[OF c]
  have up: "str_to_coords (char_of (65 + col) # py_str (row + 1)) = Inr [(row, col)]"
    using parse_letter_digits[of "py_str (row + 1)" "row + 1" "char_of (65 + col)" "65 + col"] rt ct
    by simp
  have low: "str_to_coords (char_of (97 + col) # py_str (row + 1)) = Inr [(row, col)]"
    using parse_letter_digits[of "py_str (row + 1)" "row + 1" "char_of (97 + col)" "65 + col"] rt ct
    by simp
  show ?thesis
    using chr up low by (simp add: coord_to_human_def format_coord_def)
qed

text \<open>
  Claim C9 (coordinate text round trip). For a coordinate in bounds both encoders give
  the letter with code \<open>65 + col\<close> followed by the decimal text of \<open>row + 1\<close>;
  \<^verbatim>\<open>str_to_coords\<close> maps that string, and the string with the letter in lower case
  (code \<open>97 + col\<close>), back to the one-element list of the coordinate. \<open>(0, 0)\<close>
  is written \<open>A1\<close> and \<open>(9, 9)\<close> is written \<open>J10\<close>.
\<close>

theorem coord_text_roundtrip:
  "(in_bounds (row, col) \<longrightarrow>
      coord_to_human (row, col) = Inr (char_of (65 + col) # py_str (row + 1))
      \<and> coords_to_str (Tuple (row, col)) = Inr (char_of (65 + col) # py_str (row + 1))
      \<and> coords_to_str (CoordList [(row, col)]) = Inr (char_of (65 + col) # py_str (row + 1))
      \<and> str_to_coords (char_of (65 + col) # py_str (row + 1)) = Inr [(row, col)]
      \<and> str_to_coords (char_of (97 + col) # py_str (row + 1)) = Inr [(row, col)])
   \<and> coord_to_human (0, 0) = Inr ''A1'' \<and> coords_to_str (Tuple (0, 0)) = Inr ''A1''
   \<and> coord_to_human (9, 9) = Inr ''J10'' \<and> coords_to_str (Tuple (9, 9)) = Inr ''J10''"
proof (intro conjI impI)
  assume inb: "in_bounds (row, col)"
  note rt = roundtrip_in_bounds[OF inb]
  from rt show "coord_to_human (row, col) = Inr (char_of (65 + col) # py_str (row + 1))" by blast
  from rt show "coords_to_str (Tuple (row, col)) = Inr (char_of (65 + col) # py_str (row + 1))" by blast
  from rt show "coords_to_str (CoordList [(row, col)]) = Inr (char_of (65 + col) # py_str (row + 1))" by blast
  from rt show "str_to_coords (char_of (65 + col) # py_str (row + 1)) = Inr [(row, col)]" by blast
  from rt show "str_to_coords (char_of (97 + col) # py_str (row + 1)) = Inr [(row, col)]" by blast
next
  show "coord_to_human (0, 0) = Inr ''A1''" by code_simp
  show "coords_to_str (Tuple (0, 0)) = Inr ''A1''" by code_simp
  show "coord_to_human (9, 9) = Inr ''J10''" by code_simp
  show "coords_to_str (Tuple (9, 9)) = Inr ''J10''" by code_simp
qed

theorem coord_text_roundtrip_witness:
  "in_bounds (9, 9) \<and> str_to_coords ''J10'' = Inr [(9, 9)] \<and> str_to_coords ''j10'' = Inr [(9, 9)]"
proof -
  have inb: "in_bounds (9, 9)" by code_simp
  have up: "char_of (65 + (9::int)) # py_str (9 + 1) = ''J10''" by code_simp
  have low: "char_of (97 + (9::int)) # py_str (9 + 1) = ''j10''" by code_simp
  from coord_text_roundtrip[of 9 9] inb
  have "str_to_coords (char_of (65 + (9::int)) # py_str (9 + 1)) = Inr [(9, 9)]"
    and "str_to_coords (char_of (97 + (9::int)) # py_str (9 + 1)) = Inr [(9, 9)]"
    by blast+
  then show ?thesis unfolding up low using inb by simp
qed

subsection \<open>The move chosen by the AI\<close>

lemma blank_cells_wf:
  "wf_board b \<Longrightarrow> list_all in_bounds cs \<Longrightarrow>
   blank_cells b cs = Inr (filter (\<lambda>c. cell_at b c = CHR '' '') cs)"
  by (induction cs) (auto simp: board_get_wf)

lemma all_coords_in_bounds: "list_all in_bounds all_coords"
  by code_simp

lemma set_all_coords: "set all_coords = {c. in_bounds c}"
proof -
  have "set all_coords = {0..9} \<times> {0..9}"
    by (auto simp: all_coords_def BOARD_SIZE_def)
  also have "\<dots> = {c. in_bounds c}"
    by (auto simp: in_bounds_iff)
  finally show ?thesis .
qed

lemma choose_random_move_legal:
  assumes "wf_board (player_board s)" and "in_bounds c0" "cell_at (player_board s) c0 = CHR '' ''"
  shows "legal_move (player_board s) (choose_random_move rnd s)"
proof -
  define av where "av = filter (\<lambda>c. cell_at (player_board s) c = CHR '' '') all_coords"
  have mem: "x \<in> set av \<Longrightarrow> in_bounds x \<and> cell_at (player_board s) x = CHR '' ''" for x
    by (simp add: av_def set_all_coords)
  have "c0 \<in> set av" using assms by (simp add: av_def set_all_coords)
  then have ne: "av \<noteq> []" by (metis empty_iff empty_set)
  then have "av ! (fst rnd mod length av) \<in> set av" by simp
  then have ok: "in_bounds (av ! (fst rnd mod length av))
      \<and> cell_at (player_board s) (av ! (fst rnd mod length av)) = CHR '' ''"
    by (rule mem)
  have "blank_cells (player_board s) all_coords = Inr av"
    using assms(1) by (simp add: blank_cells_wf all_coords_in_bounds av_def)
  then show ?thesis
    using ne ok by (simp add: legal_move_def choose_random_move_def)
qed

lemma probe_around_wf:
  "wf_board b \<Longrightarrow>
   \<exists>r. probe_around b hit ds = Inr r \<and> (\<forall>mv. r = Some mv \<longrightarrow> in_bounds mv \<and> cell_at b mv = CHR '' '')"
proof (induction ds)
  case Nil
  then show ?case by (cases hit) simp
next
  case (Cons d ds)
  then show ?case by (cases hit; cases d) (auto simp: board_get_wf)
qed

lemma probe_chain_wf:
  "wf_board b \<Longrightarrow>
   \<exists>r. probe_chain b lh ds hits = Inr r
     \<and> (\<forall>hit mv. r = Some (hit, mv) \<longrightarrow> in_bounds mv \<and> cell_at b mv = CHR '' '')"
proof (induction hits)
  case Nil
  then show ?case by simp
next
  case (Cons h hits)
  from probe_around_wf[OF Cons.prems, of h ds] obtain r where
    r: "probe_around b h ds = Inr r" "\<forall>mv. r = Some mv \<longrightarrow> in_bounds mv \<and> cell_at b mv = CHR '' ''"
    by blast
  from Cons.IH[OF Cons.prems] r show ?case
    by (cases r) auto
qed

lemma choose_hunt_move_legal:
  assumes "wf_board (player_board s)" and "in_bounds c0" "cell_at (player_board s) c0 = CHR '' ''"
  shows "legal_move (player_board s) (choose_hunt_move rnd s)"
proof (cases "bot_last_hit s")
  case None
  then show ?thesis
    using choose_random_move_legal[of "s\<lparr>bot_mode := RANDOM\<rparr>" c0 rnd] assms
    by (simp add: choose_hunt_move_def)
next
  case (Some lh)
  let ?b = "player_board s"
  let ?ds = "hunt_directions (bot_orientation s)"
  from probe_around_wf[OF assms(1), of lh ?ds] obtain near where
    near: "probe_around ?b lh ?ds = Inr near"
      "\<forall>mv. near = Some mv \<longrightarrow> in_bounds mv \<and> cell_at ?b mv = CHR '' ''"
    by blast
  from probe_chain_wf[OF assms(1), of "Some lh" ?ds "bot_hit_chain s"] obtain far where
    far: "probe_chain ?b (Some lh) ?ds (bot_hit_chain s) = Inr far"
      "\<forall>hit mv. far = Some (hit, mv) \<longrightarrow> in_bounds mv \<and> cell_at ?b mv = CHR '' ''"
    by blast
  show ?thesis
  proof (cases near)
    case (Some mv)
    with near \<open>bot_last_hit s = Some lh\<close> show ?thesis
      by (simp add: choose_hunt_move_def legal_move_def)
  next
    case None
    note near_none = this
    show ?thesis
    proof (cases far)
      case (Some hm)
      with near near_none far \<open>bot_last_hit s = Some lh\<close> show ?thesis
        by (cases hm) (simp add: choose_hunt_move_def legal_move_def)
    next
      case None
      with near near_none far \<open>bot_last_hit s = Some lh\<close>
        choose_random_move_legal[of "s\<lparr>bot_mode := RANDOM, bot_hit_chain := [],
           bot_last_hit := None, bot_orientation := None\<rparr>" c0 rnd] assms
      show ?thesis
        by (simp add: choose_hunt_move_def)
    qed
  qed
qed

lemma probe_before_ok:
  assumes "\<And>k. 0 \<le> k \<Longrightarrow> k < 10 \<Longrightarrow> line k = Inr (f k)" and "low < 10"
  shows "\<exists>r. probe_before line low offsets = Inr r
     \<and> (\<forall>k. r = Some k \<longrightarrow> 0 \<le> k \<and> k < 10 \<and> f k = CHR '' '')"
proof (induction offsets)
  case Nil
  show ?case by simp
next
  case (Cons offset offsets)
  show ?case
  proof (cases "low - int offset \<ge> 0")
    case True
    with assms have "line (low - int offset) = Inr (f (low - int offset))" by simp
    with True Cons assms(2) show ?thesis by auto
  next
    case False
    then show ?thesis by simp
  qed
qed

lemma probe_after_ok:
  assumes "\<And>k. 0 \<le> k \<Longrightarrow> k < 10 \<Longrightarrow> line k = Inr (f k)" and "0 \<le> high"
  shows "\<exists>r. probe_after line high offsets = Inr r
     \<and> (\<forall>k. r = Some k \<longrightarrow> 0 \<le> k \<and> k < 10 \<and> f k = CHR '' '')"
proof (induction offsets)
  case Nil
  show ?case by simp
next
  case (Cons offset offsets)
  show ?case
  proof (cases "high + int offset < 10")
    case True
    with assms have "line (high + int offset) = Inr (f (high + int offset))" by simp
    with True Cons assms(2) show ?thesis by (auto simp: BOARD_SIZE_def)
  next
    case False
    then show ?thesis by (simp add: BOARD_SIZE_def)
  qed
qed

lemma scan_gap_ok:
  assumes "\<And>k. 0 \<le> k \<Longrightarrow> k < 10 \<Longrightarrow> line k = Inr (f k)"
  shows "\<forall>k\<in>set ks. 0 \<le> k \<and> k < 10 \<Longrightarrow>
     \<exists>r. scan_gap line ks = Inr r \<and> (\<forall>k. r = Some k \<longrightarrow> 0 \<le> k \<and> k < 10 \<and> f k = CHR '' '')"
proof (induction ks)
  case Nil
  show ?case by simp
next
  case (Cons k ks)
  then have "line k = Inr (f k)" using assms by simp
  with Cons show ?case by auto
qed

lemma probe_gaps_ok:
  assumes "\<And>k. 0 \<le> k \<Longrightarrow> k < 10 \<Longrightarrow> line k = Inr (f k)"
  shows "\<forall>k\<in>set along. 0 \<le> k \<and> k < 10 \<Longrightarrow>
     \<exists>r. probe_gaps line along = Inr r \<and> (\<forall>k. r = Some k \<longrightarrow> 0 \<le> k \<and> k < 10 \<and> f k = CHR '' '')"
proof (induction along rule: induct_list012)
  case (3 current next_hit rest)
  from "3.prems" have rng: "\<forall>k\<in>set [current + 1..next_hit - 1]. 0 \<le> k \<and> k < 10"
    by auto
  from scan_gap_ok[of line f, OF assms rng] obtain g where
    g: "scan_gap line [current + 1..next_hit - 1] = Inr g"
      "\<forall>k. g = Some k \<longrightarrow> 0 \<le> k \<and> k < 10 \<and> f k = CHR '' ''"
    by blast
  from "3.prems" have rest: "\<forall>k\<in>set (next_hit # rest). 0 \<le> k \<and> k < 10" by simp
  from "3.IH"(2)[OF rest] g show ?case by (cases g) auto
qed simp_all

lemma probe_line_ok:
  assumes line: "\<And>k. 0 \<le> k \<Longrightarrow> k < 10 \<Longrightarrow> line k = Inr (f k)"
    and ne: "along \<noteq> []" and rng: "\<forall>k\<in>set along. 0 \<le> k \<and> k < 10"
  shows "\<exists>r. probe_line line along = Inr r
     \<and> (\<forall>k. r = Some k \<longrightarrow> 0 \<le> k \<and> k < 10 \<and> f k = CHR '' '')"
proof -
  from ne have "Min (set along) \<in> set along" "Max (set along) \<in> set along" by simp_all
  with rng have lo: "Min (set along) < 10" and hi: "0 \<le> Max (set along)" by auto
  from probe_before_ok[of line f, OF line lo] obtain r1 where
    r1: "probe_before line (Min (set along)) [1, 2, 3, 4] = Inr r1"
      "\<forall>k. r1 = Some k \<longrightarrow> 0 \<le> k \<and> k < 10 \<and> f k = CHR '' ''"
    by blast
  from probe_after_ok[of line f, OF line hi] obtain r2 where
    r2: "probe_after line (Max (set along)) [1, 2, 3, 4] = Inr r2"
      "\<forall>k. r2 = Some k \<longrightarrow> 0 \<le> k \<and> k < 10 \<and> f k = CHR '' ''"
    by blast
  from probe_gaps_ok[of line f, OF line rng] obtain r3 where
    r3: "probe_gaps line along = Inr r3"
      "\<forall>k. r3 = Some k \<longrightarrow> 0 \<le> k \<and> k < 10 \<and> f k = CHR '' ''"
    by blast
  show ?thesis
    using r1 r2 r3 by (cases r1; cases r2) (simp_all add: probe_line_def)
qed

lemma choose_locked_horizontal_move_legal:
  assumes wf: "wf_board (player_board s)"
    and blank: "in_bounds c0" "cell_at (player_board s) c0 = CHR '' ''"
    and hits: "sorted_hits \<noteq> []" "list_all in_bounds sorted_hits"
  shows "legal_move (player_board s) (choose_locked_horizontal_move rnd s sorted_hits)"
proof -
  let ?b = "player_board s"
  let ?row = "fst (hd sorted_hits)"
  from hits have "in_bounds (hd sorted_hits)" by (cases sorted_hits) simp_all
  then have row: "0 \<le> ?row" "?row < 10" by (cases "hd sorted_hits", simp add: in_bounds_iff)+
  have line: "\<And>k. 0 \<le> k \<Longrightarrow> k < 10 \<Longrightarrow> board_get ?b ?row k = Inr (cell_at ?b (?row, k))"
    using wf row by (simp add: board_get_wf in_bounds_iff)
  have rng: "\<forall>k\<in>set (map snd sorted_hits). 0 \<le> k \<and> k < 10"
    using hits(2) by (auto simp: list_all_iff in_bounds_iff)
  from probe_line_ok[of "\<lambda>col. board_get ?b ?row col" "\<lambda>k. cell_at ?b (?row, k)" "map snd sorted_hits",
      OF line _ rng] hits(1)
  obtain r where r: "probe_line (\<lambda>col. board_get ?b ?row col) (map snd sorted_hits) = Inr r"
    "\<forall>k. r = Some k \<longrightarrow> 0 \<le> k \<and> k < 10 \<and> cell_at ?b (?row, k) = CHR '' ''"
    by auto
  show ?thesis
  proof (cases r)
    case None
    with r hits(1) choose_hunt_move_legal[of "s\<lparr>bot_mode := HUNT\<rparr>" c0 rnd] wf blank
    show ?thesis by (simp add: choose_locked_horizontal_move_def)
  next
    case (Some k)
    with r hits(1) row show ?thesis
      by (simp add: choose_locked_horizontal_move_def legal_move_def in_bounds_iff)
  qed
qed

lemma choose_locked_vertical_move_legal:
  assumes wf: "wf_board (player_board s)"
    and blank: "in_bounds c0" "cell_at (player_board s) c0 = CHR '' ''"
    and hits: "sorted_hits \<noteq> []" "list_all in_bounds sorted_hits"
  shows "legal_move (player_board s) (choose_locked_vertical_move rnd s sorted_hits)"
proof -
  let ?b = "player_board s"
  let ?col = "snd (hd sorted_hits)"
  from hits have "in_bounds (hd sorted_hits)" by (cases sorted_hits) simp_all
  then have col: "0 \<le> ?col" "?col < 10" by (cases "hd sorted_hits", simp add: in_bounds_iff)+
  have line: "\<And>k. 0 \<le> k \<Longrightarrow> k < 10 \<Longrightarrow> board_get ?b k ?col = Inr (cell_at ?b (k, ?col))"
    using wf col by (simp add: board_get_wf in_bounds_iff)
  have rng: "\<forall>k\<in>set (map fst sorted_hits). 0 \<le> k \<and> k < 10"
    using hits(2) by (auto simp: list_all_iff in_bounds_iff)
  from probe_line_ok[of "\<lambda>row. board_get ?b row ?col" "\<lambda>k. cell_at ?b (k, ?col)" "map fst sorted_hits",
      OF line _ rng] hits(1)
  obtain r where r: "probe_line (\<lambda>row. board_get ?b row ?col) (map fst sorted_hits) = Inr r"
    "\<forall>k. r = Some k \<longrightarrow> 0 \<le> k \<and> k < 10 \<and> cell_at ?b (k, ?col) = CHR '' ''"
    by auto
  show ?thesis
  proof (cases r)
    case None
    with r hits(1) choose_hunt_move_legal[of "s\<lparr>bot_mode := HUNT\<rparr>" c0 rnd] wf blank
    show ?thesis by (simp add: choose_locked_vertical_move_def)
  next
    case (Some k)
    with r hits(1) col show ?thesis
      by (simp add: choose_locked_vertical_move_def legal_move_def in_bounds_iff)
  qed
qed

lemma infer_orientation_fields:
  "player_board (infer_orientation s) = player_board s"
  "bot_hit_chain (infer_orientation s) = bot_hit_chain s"
  by (simp_all add: infer_orientation_def Let_def)

lemma infer_orientation_cases:
  "bot_orientation (infer_orientation s) = None
   \<or> bot_orientation (infer_orientation s) = Some Horizontal
   \<or> bot_orientation (infer_orientation s) = Some Vertical"
proof (cases "bot_orientation (infer_orientation s)")
  case (Some ori)
  then show ?thesis by (cases ori) simp_all
qed simp

lemma choose_locked_move_legal:
  assumes wf: "wf_board (player_board s)"
    and blank: "in_bounds c0" "cell_at (player_board s) c0 = CHR '' ''"
    and chain: "list_all in_bounds (bot_hit_chain s)"
  shows "legal_move (player_board s) (choose_locked_move rnd s)"
proof (cases "length (bot_hit_chain s) < 2")
  case True
  with choose_hunt_move_legal[of "s\<lparr>bot_mode := HUNT\<rparr>" c0 rnd] wf blank show ?thesis
    by (subst choose_locked_move.simps) simp
next
  case False
  have sorted: "sort (bot_hit_chain t) \<noteq> []" "list_all in_bounds (sort (bot_hit_chain t))"
    if "bot_hit_chain t = bot_hit_chain s" for t
  proof -
    from False that have "bot_hit_chain t \<noteq> []" by auto
    then have "length (sort (bot_hit_chain t)) \<noteq> 0" by simp
    then show "sort (bot_hit_chain t) \<noteq> []" by (simp del: length_sort)
    show "list_all in_bounds (sort (bot_hit_chain t))"
      using chain that by (simp add: list_all_iff)
  qed
  have oriented: "legal_move (player_board s) (choose_locked_move rnd t)"
    if t: "bot_hit_chain t = bot_hit_chain s" "player_board t = player_board s"
      and ori: "bot_orientation t = Some Horizontal \<or> bot_orientation t = Some Vertical" for t
    using ori
  proof
    assume "bot_orientation t = Some Horizontal"
    with False t choose_locked_horizontal_move_legal[of t c0 "sort (bot_hit_chain t)" rnd]
      sorted[OF t(1)] wf blank
    show ?thesis by (subst choose_locked_move.simps) simp
  next
    assume "bot_orientation t = Some Vertical"
    with False t choose_locked_vertical_move_legal[of t c0 "sort (bot_hit_chain t)" rnd]
      sorted[OF t(1)] wf blank
    show ?thesis by (subst choose_locked_move.simps) simp
  qed
  show ?thesis
  proof (cases "bot_orientation s = Some Horizontal \<or> bot_orientation s = Some Vertical")
    case True
    then show ?thesis by (intro oriented) simp_all
  next
    case no_ori: False
    from infer_orientation_cases[of s] show ?thesis
    proof (elim disjE)
      assume none: "bot_orientation (infer_orientation s) = None"
      with False no_ori
        choose_hunt_move_legal[of "(infer_orientation s)\<lparr>bot_mode := HUNT\<rparr>" c0 rnd] wf blank
      show ?thesis
        by (subst choose_locked_move.simps) (simp add: infer_orientation_fields)
    next
      assume h: "bot_orientation (infer_orientation s) = Some Horizontal"
      have "legal_move (player_board s) (choose_locked_move rnd (infer_orientation s))"
        using h by (intro oriented) (simp_all add: infer_orientation_fields)
      with False no_ori h show ?thesis
        by (subst choose_locked_move.simps) simp
    next
      assume v: "bot_orientation (infer_orientation s) = Some Vertical"
      have "legal_move (player_board s) (choose_locked_move rnd (infer_orientation s))"
        using v by (intro oriented) (simp_all add: infer_orientation_fields)
      with False no_ori v show ?thesis
        by (subst choose_locked_move.simps) simp
    qed
  qed
qed

lemma choose_bot_move_legal:
  assumes "wf_board (player_board s)"
    and "in_bounds c0" "cell_at (player_board s) c0 = CHR '' ''"
    and "list_all in_bounds (bot_hit_chain s)"
  shows "legal_move (player_board s) (choose_bot_move rnd s)"
  using assms choose_random_move_legal[of s c0 rnd] choose_hunt_move_legal[of s c0 rnd]
    choose_locked_move_legal[of s c0 rnd]
  by (simp add: choose_bot_move_def)

subsection \<open>What holds in every state of a game\<close>

lemma ai_fields_only_refl: "ai_fields_only s s"
  by (simp add: ai_fields_only_def)

lemma choose_random_move_fields:
  "choose_random_move rnd s = Inr (mv, s1) \<Longrightarrow> s1 = s"
  by (auto simp: choose_random_move_def bind_res_eq_Inr split: if_splits)

lemma choose_hunt_move_fields:
  assumes "choose_hunt_move rnd s = Inr (mv, s1)"
  shows "ai_fields_only s s1"
proof (cases "bot_last_hit s")
  case None
  with assms have "s1 = s\<lparr>bot_mode := RANDOM\<rparr>"
    by (simp add: choose_hunt_move_def choose_random_move_fields)
  then show ?thesis by (simp add: ai_fields_only_def)
next
  case (Some lh)
  with assms show ?thesis
    by (auto simp: choose_hunt_move_def Let_def bind_res_eq_Inr ai_fields_only_def
        split: option.splits dest!: choose_random_move_fields)
qed

lemma ai_fields_only_mode:
  "ai_fields_only (s\<lparr>bot_mode := m\<rparr>) s1 \<Longrightarrow> ai_fields_only s s1"
  by (simp add: ai_fields_only_def)

lemma ai_fields_only_infer:
  "ai_fields_only (infer_orientation s) s1 \<Longrightarrow> ai_fields_only s s1"
  by (simp add: ai_fields_only_def infer_orientation_def Let_def split: if_splits)

lemma choose_locked_horizontal_move_fields:
  assumes "choose_locked_horizontal_move rnd s hits = Inr (mv, s1)"
  shows "ai_fields_only s s1"
  using assms
  by (auto simp: choose_locked_horizontal_move_def bind_res_eq_Inr ai_fields_only_refl Let_def
      split: if_splits option.splits dest!: choose_hunt_move_fields ai_fields_only_mode)

lemma choose_locked_vertical_move_fields:
  assumes "choose_locked_vertical_move rnd s hits = Inr (mv, s1)"
  shows "ai_fields_only s s1"
  using assms
  by (auto simp: choose_locked_vertical_move_def bind_res_eq_Inr ai_fields_only_refl Let_def
      split: if_splits option.splits dest!: choose_hunt_move_fields ai_fields_only_mode)

lemma choose_locked_move_fields:
  "choose_locked_move rnd s = Inr (mv, s1) \<Longrightarrow> ai_fields_only s s1"
proof (induction rnd s rule: choose_locked_move.induct)
  case (1 rnd s)
  from "1.prems" show ?case
    apply (subst (asm) choose_locked_move.simps)
    apply (auto split: if_splits
        dest!: choose_hunt_move_fields choose_locked_horizontal_move_fields
          choose_locked_vertical_move_fields ai_fields_only_mode
        dest: "1.IH" ai_fields_only_infer)
    done
qed

lemma choose_bot_move_fields:
  "choose_bot_move rnd s = Inr (mv, s1) \<Longrightarrow> ai_fields_only s s1"
  by (auto simp: choose_bot_move_def ai_fields_only_refl split: if_splits
      dest: choose_random_move_fields choose_hunt_move_fields choose_locked_move_fields)

lemma apply_move_wf:
  assumes "wf_board b" and "apply_move b sb ships coord = Inr ((res, flag), b')"
  shows "wf_board b' \<and> (res \<noteq> Invalid \<longrightarrow> in_bounds coord)"
proof -
  consider (out) "\<not> in_bounds coord"
    | (seen) "in_bounds coord" "cell_at b coord = CHR ''H'' \<or> cell_at b coord = CHR ''M''"
    | (fresh) "in_bounds coord" "cell_at b coord \<noteq> CHR ''H''" "cell_at b coord \<noteq> CHR ''M''"
    by blast
  then show ?thesis
  proof cases
    case out
    with assms show ?thesis by (simp add: apply_move_out_of_bounds)
  next
    case seen
    with assms show ?thesis by (simp add: apply_move_resolved)
  next
    case fresh
    have wfh: "wf_board (set_cell b coord (CHR ''H''))" using assms(1) by (rule wf_set_cell)
    from apply_move_fresh[OF assms(1) fresh assms(2)] have "wf_board b'"
    proof (elim disjE conjE)
      assume "b' = set_cell b coord (CHR ''M'')"
      then show ?thesis using assms(1) by (simp add: wf_set_cell)
    next
      assume "b' = set_cell b coord (CHR ''H'')"
      then show ?thesis using wfh by simp
    next
      assume "mark_surrounding_cells_as_miss coord ships (set_cell b coord (CHR ''H'')) = Inr b'"
      from mark_surrounding_frame[OF wfh this] show ?thesis by simp
    qed
    with fresh(1) show ?thesis by simp
  qed
qed

lemma state_ok_ai_fields_only:
  "state_ok s \<Longrightarrow> ai_fields_only s s1 \<Longrightarrow> state_ok s1"
  by (auto simp: state_ok_def ai_fields_only_def)

lemma state_ok_infer_orientation: "state_ok (infer_orientation s) = state_ok s"
  by (simp add: state_ok_def infer_orientation_def Let_def)

lemma state_ok_ai_update:
  "state_ok (t\<lparr>bot_mode := m\<rparr>) = state_ok t"
  "state_ok (t\<lparr>bot_last_hit := l\<rparr>) = state_ok t"
  "state_ok (t\<lparr>bot_orientation := ori\<rparr>) = state_ok t"
  by (simp_all add: state_ok_def)

lemma state_ok_chain_update:
  "state_ok t \<Longrightarrow> list_all in_bounds ch \<Longrightarrow> distinct ch \<Longrightarrow> state_ok (t\<lparr>bot_hit_chain := ch\<rparr>)"
  by (simp add: state_ok_def)

lemma state_ok_bot_flag:
  "state_ok t \<Longrightarrow> current_turn t = Bot \<Longrightarrow> state_ok (t\<lparr>bot_gets_extra_shot := f\<rparr>)"
  by (auto simp: state_ok_def)

lemma state_ok_chain: "state_ok t \<Longrightarrow> list_all in_bounds (bot_hit_chain t) \<and> distinct (bot_hit_chain t)"
  by (simp add: state_ok_def)

lemma state_ok_bot_update_state:
  assumes "state_ok s" and "current_turn s = Bot" and "res = Hit \<longrightarrow> in_bounds mv"
  shows "state_ok (bot_update_state s mv res)"
proof -
  define s1 where "s1 = s\<lparr>bot_gets_extra_shot := (res = Hit \<or> res = Sink)\<rparr>"
  have ok1: "state_ok s1" unfolding s1_def using assms(1,2) by (rule state_ok_bot_flag)
  note ch1 = state_ok_chain[OF ok1]
  show ?thesis
  proof (cases res)
    case Hit
    have one: "state_ok (s1\<lparr>bot_hit_chain := [mv]\<rparr>)"
      using ok1 assms(3) Hit by (intro state_ok_chain_update) simp_all
    have more: "state_ok (s1\<lparr>bot_hit_chain := bot_hit_chain s1 @ [mv]\<rparr>)"
      if "mv \<notin> set (bot_hit_chain s1)"
      using ok1 ch1 assms(3) Hit that by (intro state_ok_chain_update) simp_all
    have "bot_update_state s mv res =
      (if bot_hit_chain s1 = []
       then s1\<lparr>bot_hit_chain := [mv], bot_last_hit := Some mv, bot_mode := HUNT\<rparr>
       else if same_ship_hit (bot_hit_chain s1) mv \<and> mv \<notin> set (bot_hit_chain s1)
       then (let s2 = s1\<lparr>bot_hit_chain := bot_hit_chain s1 @ [mv], bot_last_hit := Some mv\<rparr>
             in if length (bot_hit_chain s2) \<ge> 2
                then (let s3 = infer_orientation s2
                      in if bot_orientation s3 \<noteq> None then s3\<lparr>bot_mode := LOCKED\<rparr> else s3)
                else s2)
       else s1\<lparr>bot_hit_chain := [mv], bot_last_hit := Some mv,
               bot_mode := HUNT, bot_orientation := None\<rparr>)"
      using Hit by (simp add: bot_update_state_def s1_def Let_def)
    then show ?thesis
      using one more
      by (simp add: Let_def state_ok_ai_update state_ok_infer_orientation)
  next
    case Sink
    have "state_ok (s1\<lparr>bot_hit_chain := []\<rparr>)"
      using ok1 by (intro state_ok_chain_update) simp_all
    moreover have "bot_update_state s mv res =
      s1\<lparr>bot_hit_chain := [], bot_last_hit := None, bot_orientation := None, bot_mode := RANDOM\<rparr>"
      using Sink by (simp add: bot_update_state_def s1_def Let_def)
    ultimately show ?thesis by (simp add: state_ok_ai_update)
  next
    case Miss
    have "bot_update_state s mv res =
      (if bot_mode s1 = HUNT \<and> length (bot_hit_chain s1) \<ge> 2
       then (let s2 = infer_orientation s1
             in if bot_orientation s2 \<noteq> None then s2\<lparr>bot_mode := LOCKED\<rparr> else s2)
       else s1)"
      using Miss by (simp add: bot_update_state_def s1_def Let_def)
    then show ?thesis
      using ok1 by (simp add: Let_def state_ok_ai_update state_ok_infer_orientation)
  next
    case Invalid
    have "bot_update_state s mv res = s1"
      using Invalid by (simp add: bot_update_state_def s1_def Let_def)
    then show ?thesis using ok1 by simp
  qed
qed

lemma state_ok_init: "init_state p_ships b_ships = Inr s \<Longrightarrow> state_ok s"
  by (auto simp: init_state_def bind_res_eq_Inr state_ok_def wf_blank_board)

lemma state_ok_next_turn: "state_ok s \<Longrightarrow> state_ok (next_turn s)"
  by (auto simp: state_ok_def next_turn_def Let_def)

lemma state_ok_player_take_turn:
  assumes "state_ok s" "current_turn s = Player" "player_take_turn s coord = Inr (out, s')"
  shows "state_ok s'"
proof -
  from assms(3) obtain res flag b' shot where
    run: "apply_move (bot_board s) (bot_board_ships s) (bot_ships s) coord = Inr ((res, flag), b')"
    and s': "s' = s\<lparr>bot_board := b', player_gets_extra_shot := shot\<rparr>"
    by (auto simp: player_take_turn_def apply_player_move_def bind_res_eq_Inr split: if_splits)
  from assms(1) have "wf_board (bot_board s)" by (simp add: state_ok_def)
  from apply_move_wf[OF this run] have "wf_board b'" by simp
  with assms(1,2) show ?thesis by (auto simp: s' state_ok_def)
qed

lemma state_ok_bot_take_turn:
  assumes "state_ok s" "current_turn s = Bot" "bot_take_turn rnd s = Inr (out, s')"
  shows "state_ok s'"
proof -
  from assms(3) obtain mv s1 res flag b' where
    choose: "choose_bot_move rnd s = Inr (mv, s1)"
    and run: "apply_move (player_board s1) (player_board_ships s1) (player_ships s1) mv
        = Inr ((res, flag), b')"
    and s': "s' = bot_update_state (s1\<lparr>player_board := b'\<rparr>) mv res"
    by (auto simp: bot_take_turn_def bot_attack_def apply_bot_move_def bind_res_eq_Inr)
  from choose_bot_move_fields[OF choose] have only: "ai_fields_only s s1" .
  with assms(1) have ok1: "state_ok s1" by (rule state_ok_ai_fields_only)
  then have "wf_board (player_board s1)" by (simp add: state_ok_def)
  from apply_move_wf[OF this run] have wf': "wf_board b'" and inb: "res = Hit \<longrightarrow> in_bounds mv"
    by simp_all
  from ok1 wf' have ok2: "state_ok (s1\<lparr>player_board := b'\<rparr>)" by (simp add: state_ok_def)
  from only assms(2) have "current_turn (s1\<lparr>player_board := b'\<rparr>) = Bot"
    by (simp add: ai_fields_only_def)
  from state_ok_bot_update_state[OF ok2 this inb] show ?thesis by (simp add: s')
qed

lemma reachable_state_ok: "reachable s \<Longrightarrow> state_ok s"
proof (induction rule: reachable.induct)
  case (start p_ships b_ships s)
  then show ?case by (rule state_ok_init)
next
  case (player_attack s coord out s')
  then show ?case by (blast intro: state_ok_player_take_turn)
next
  case (bot_attack s rnd out s')
  then show ?case by (blast intro: state_ok_bot_take_turn)
next
  case (handover s)
  then show ?case by (simp add: state_ok_next_turn)
qed

lemma reachable_locked_state: "reachable locked_state"
proof -
  let ?p1 = "sample_state\<lparr>bot_board := set_cell blank_board (1, 1) (CHR ''M'')\<rparr>"
  let ?p2 = "?p1\<lparr>turn_number := 1, current_turn := Bot\<rparr>"
  let ?p3 = "?p2\<lparr>player_board := set_cell blank_board (0, 0) (CHR ''H''),
                 bot_gets_extra_shot := True, bot_hit_chain := [(0, 0)],
                 bot_last_hit := Some (0, 0), bot_mode := HUNT\<rparr>"
  let ?p4 = "?p3\<lparr>player_board := set_cell (set_cell blank_board (0, 0) (CHR ''H'')) (1, 0) (CHR ''M''),
                 bot_gets_extra_shot := False\<rparr>"
  let ?p5 = "?p4\<lparr>turn_number := 2, current_turn := Player\<rparr>"
  let ?p6 = "?p5\<lparr>bot_board := set_cell (set_cell blank_board (1, 1) (CHR ''M'')) (3, 3) (CHR ''M'')\<rparr>"
  let ?p7 = "?p6\<lparr>turn_number := 3, current_turn := Bot\<rparr>"
  have r0: "reachable sample_state" using sample_state_init by (rule reachable.start)
  have t0: "current_turn sample_state = Player" by code_simp
  have s1: "player_take_turn sample_state (1, 1) = Inr (((1, 1), Miss), ?p1)" by code_simp
  have r1: "reachable ?p1" using r0 t0 s1 by (rule reachable.player_attack)
  have s2: "next_turn ?p1 = ?p2" by code_simp
  have r2: "reachable ?p2" using reachable.handover[OF r1] by (simp only: s2)
  have t2: "current_turn ?p2 = Bot" by code_simp
  have s3: "bot_take_turn (0, 0) ?p2 = Inr (((0, 0), Hit), ?p3)" by code_simp
  have r3: "reachable ?p3" using r2 t2 s3 by (rule reachable.bot_attack)
  have t3: "current_turn ?p3 = Bot" by code_simp
  have s4: "bot_take_turn (0, 0) ?p3 = Inr (((1, 0), Miss), ?p4)" by code_simp
  have r4: "reachable ?p4" using r3 t3 s4 by (rule reachable.bot_attack)
  have s5: "next_turn ?p4 = ?p5" by code_simp
  have r5: "reachable ?p5" using reachable.handover[OF r4] by (simp only: s5)
  have t5: "current_turn ?p5 = Player" by code_simp
  have s6: "player_take_turn ?p5 (3, 3) = Inr (((3, 3), Miss), ?p6)" by code_simp
  have r6: "reachable ?p6" using r5 t5 s6 by (rule reachable.player_attack)
  have s7: "next_turn ?p6 = ?p7" by code_simp
  have r7: "reachable ?p7" using reachable.handover[OF r6] by (simp only: s7)
  have t7: "current_turn ?p7 = Bot" by code_simp
  have s8: "bot_take_turn (0, 0) ?p7 = Inr (((0, 1), Hit), locked_state)" by code_simp
  show ?thesis using r7 t7 s8 by (rule reachable.bot_attack)
qed

lemma locked_state_move: "choose_bot_move (0, 0) locked_state = Inr ((0, 2), locked_state)"
  by code_simp

text \<open>
  Claim C5 (the AI always finds a legal move). \<^verbatim>\<open>choose_bot_move\<close> is a total
  function: the one recursive call, in \<^verbatim>\<open>choose_locked_move\<close>, is made with an
  orientation set and is not repeated. In every state of a game, if some cell in bounds
  of the player's attack board is blank, the choice returns a move, for every outcome of
  the random draws; the move is in bounds, its cell is blank, and the board is as before.
\<close>

theorem choose_bot_move_legal_when_blank:
  assumes "reachable s" and "in_bounds c0" and "cell_at (player_board s) c0 = CHR '' ''"
  shows "\<exists>mv s1. choose_bot_move rnd s = Inr (mv, s1)
           \<and> in_bounds mv \<and> cell_at (player_board s) mv = CHR '' ''
           \<and> player_board s1 = player_board s"
proof -
  from reachable_state_ok[OF assms(1)]
  have wf: "wf_board (player_board s)" and chain: "list_all in_bounds (bot_hit_chain s)"
    by (simp_all add: state_ok_def)
  from choose_bot_move_legal[OF wf assms(2,3) chain, of rnd] obtain mv s1 where
    mv: "choose_bot_move rnd s = Inr (mv, s1)" "in_bounds mv" "cell_at (player_board s) mv = CHR '' ''"
    by (auto simp: legal_move_def)
  from choose_bot_move_fields[OF mv(1)] have "player_board s1 = player_board s"
    by (simp add: ai_fields_only_def)
  with mv show ?thesis by blast
qed

theorem choose_bot_move_legal_when_blank_witness:
  "reachable sample_state \<and> bot_mode sample_state = RANDOM
   \<and> in_bounds (9, 9) \<and> cell_at (player_board sample_state) (9, 9) = CHR '' ''
   \<and> choose_bot_move (42, 0) sample_state = Inr ((4, 2), sample_state)
   \<and> in_bounds (4, 2) \<and> cell_at (player_board sample_state) (4, 2) = CHR '' ''
   \<and> reachable locked_state \<and> bot_mode locked_state = LOCKED
   \<and> cell_at (player_board locked_state) (9, 9) = CHR '' ''
   \<and> choose_bot_move (0, 0) locked_state = Inr ((0, 2), locked_state)
   \<and> in_bounds (0, 2) \<and> cell_at (player_board locked_state) (0, 2) = CHR '' ''"
proof -
  have r: "reachable sample_state" using sample_state_init by (rule reachable.start)
  have m: "bot_mode sample_state = RANDOM" by code_simp
  have i: "in_bounds (9, 9)" by code_simp
  have b: "cell_at (player_board sample_state) (9, 9) = CHR '' ''" by code_simp
  have run: "choose_bot_move (42, 0) sample_state = Inr ((4, 2), sample_state)" by code_simp
  from choose_bot_move_legal_when_blank[OF r i b, of "(42, 0)"] run
  have first: "in_bounds (4, 2)" "cell_at (player_board sample_state) (4, 2) = CHR '' ''"
    by simp_all
  have m': "bot_mode locked_state = LOCKED" by code_simp
  have b': "cell_at (player_board locked_state) (9, 9) = CHR '' ''" by code_simp
  from choose_bot_move_legal_when_blank[OF reachable_locked_state i b', of "(0, 0)"]
    locked_state_move
  have second: "in_bounds (0, 2)" "cell_at (player_board locked_state) (0, 2) = CHR '' ''"
    by simp_all
  from r m i b run first reachable_locked_state m' b' locked_state_move second
  show ?thesis by blast
qed

subsection \<open>Orientation inference\<close>

lemma hd_sort_in_set: "xs \<noteq> [] \<Longrightarrow> hd (sort xs) \<in> set xs"
proof -
  assume "xs \<noteq> []"
  then have "length (sort xs) \<noteq> 0" by simp
  then have "sort xs \<noteq> []" by (simp del: length_sort)
  then have "hd (sort xs) \<in> set (sort xs)" by (rule hd_in_set)
  then show ?thesis by simp
qed

lemma all_same_as_hd:
  assumes "xs \<noteq> []"
  shows "list_all (\<lambda>hit. f hit = f (hd (sort xs))) (sort xs) \<longleftrightarrow> (\<forall>h\<in>set xs. \<forall>h'\<in>set xs. f h = f h')"
proof
  assume "list_all (\<lambda>hit. f hit = f (hd (sort xs))) (sort xs)"
  then have "\<forall>h\<in>set xs. f h = f (hd (sort xs))" by (simp add: list_all_iff)
  then show "\<forall>h\<in>set xs. \<forall>h'\<in>set xs. f h = f h'" by metis
next
  assume "\<forall>h\<in>set xs. \<forall>h'\<in>set xs. f h = f h'"
  with hd_sort_in_set[OF assms] have "\<forall>h\<in>set xs. f h = f (hd (sort xs))" by blast
  then show "list_all (\<lambda>hit. f hit = f (hd (sort xs))) (sort xs)" by (simp add: list_all_iff)
qed

lemma infer_orientation_value:
  assumes "2 \<le> length (bot_hit_chain s)"
  shows "infer_orientation s = s\<lparr>bot_orientation :=
      (if \<forall>h\<in>set (bot_hit_chain s). \<forall>h'\<in>set (bot_hit_chain s). fst h = fst h' then Some Horizontal
       else if \<forall>h\<in>set (bot_hit_chain s). \<forall>h'\<in>set (bot_hit_chain s). snd h = snd h' then Some Vertical
       else None)\<rparr>"
proof -
  let ?ch = "bot_hit_chain s"
  from assms have ne: "?ch \<noteq> []" by auto
  note rows = all_same_as_hd[OF ne, of fst] and cols = all_same_as_hd[OF ne, of snd]
  from assms have unfold: "infer_orientation s =
     (if list_all (\<lambda>hit. fst hit = fst (hd (sort ?ch))) (sort ?ch)
      then s\<lparr>bot_orientation := Some Horizontal\<rparr>
      else if list_all (\<lambda>hit. snd hit = snd (hd (sort ?ch))) (sort ?ch)
      then s\<lparr>bot_orientation := Some Vertical\<rparr>
      else s\<lparr>bot_orientation := None\<rparr>)"
    by (simp only: infer_orientation_def Let_def) simp
  show ?thesis
    unfolding unfold rows cols by (simp only: if_distrib[of "\<lambda>v. s\<lparr>bot_orientation := v\<rparr>"])
qed

lemma distinct_not_both:
  assumes "2 \<le> length ch" "distinct ch"
    and "\<forall>h\<in>set ch. \<forall>h'\<in>set ch. fst h = fst h'"
  shows "\<not> (\<forall>h\<in>set ch. \<forall>h'\<in>set ch. snd h = snd h')"
proof
  assume cols: "\<forall>h\<in>set ch. \<forall>h'\<in>set ch. snd h = snd h'"
  from assms(1) obtain a ch1 where c1: "ch = a # ch1" by (cases ch) auto
  with assms(1) obtain b rest where c2: "ch1 = b # rest" by (cases ch1) auto
  from c1 c2 have mem: "a \<in> set ch" "b \<in> set ch" by simp_all
  from assms(3) mem have "fst a = fst b" by blast
  moreover from cols mem have "snd a = snd b" by blast
  ultimately have "a = b" by (simp add: prod_eq_iff)
  with assms(2) c1 c2 show False by simp
qed

text \<open>
  Claim C7 (orientation inference). For a hit chain of at least two distinct coordinates
  (the chains of a game are distinct, see \<open>reachable_state_ok\<close>)
  \<^verbatim>\<open>infer_orientation\<close> sets the orientation to Horizontal when all coordinates share
  a row, to Vertical when all share a column, and to None when neither holds. For every
  chain of length at least two it changes nothing but the orientation, and tests the rows
  before the columns. A chain shorter than two leaves the state as it is.
\<close>

theorem infer_orientation_correct:
  "(2 \<le> length (bot_hit_chain s) \<and> distinct (bot_hit_chain s) \<longrightarrow>
      ((\<forall>h\<in>set (bot_hit_chain s). \<forall>h'\<in>set (bot_hit_chain s). fst h = fst h')
         \<longrightarrow> bot_orientation (infer_orientation s) = Some Horizontal)
      \<and> ((\<forall>h\<in>set (bot_hit_chain s). \<forall>h'\<in>set (bot_hit_chain s). snd h = snd h')
         \<longrightarrow> bot_orientation (infer_orientation s) = Some Vertical)
      \<and> (\<not> (\<forall>h\<in>set (bot_hit_chain s). \<forall>h'\<in>set (bot_hit_chain s). fst h = fst h')
           \<and> \<not> (\<forall>h\<in>set (bot_hit_chain s). \<forall>h'\<in>set (bot_hit_chain s). snd h = snd h')
         \<longrightarrow> bot_orientation (infer_orientation s) = None))
   \<and> (2 \<le> length (bot_hit_chain s) \<longrightarrow>
        infer_orientation s = s\<lparr>bot_orientation := bot_orientation (infer_orientation s)\<rparr>
        \<and> bot_orientation (infer_orientation s) =
            (if \<forall>h\<in>set (bot_hit_chain s). \<forall>h'\<in>set (bot_hit_chain s). fst h = fst h'
             then Some Horizontal
             else if \<forall>h\<in>set (bot_hit_chain s). \<forall>h'\<in>set (bot_hit_chain s). snd h = snd h'
             then Some Vertical
             else None))
   \<and> (length (bot_hit_chain s) < 2 \<longrightarrow> infer_orientation s = s)"
proof -
  let ?rows = "\<forall>h\<in>set (bot_hit_chain s). \<forall>h'\<in>set (bot_hit_chain s). fst h = fst h'"
  let ?cols = "\<forall>h\<in>set (bot_hit_chain s). \<forall>h'\<in>set (bot_hit_chain s). snd h = snd h'"
  let ?ori = "if ?rows then Some Horizontal else if ?cols then Some Vertical else None"
  have short: "infer_orientation s = s" if "length (bot_hit_chain s) < 2"
    using that by (simp only: infer_orientation_def if_True)
  have long: "infer_orientation s = s\<lparr>bot_orientation := ?ori\<rparr>" if "2 \<le> length (bot_hit_chain s)"
    using that by (rule infer_orientation_value)
  have ori: "bot_orientation (infer_orientation s) = ?ori" if "2 \<le> length (bot_hit_chain s)"
    by (simp only: long[OF that]) simp
  have only: "infer_orientation s = s\<lparr>bot_orientation := bot_orientation (infer_orientation s)\<rparr>"
    if "2 \<le> length (bot_hit_chain s)"
    by (simp only: ori[OF that]) (rule long[OF that])
  have h: "bot_orientation (infer_orientation s) = Some Horizontal"
    if "2 \<le> length (bot_hit_chain s)" ?rows
    unfolding ori[OF that(1)] by (rule if_P[OF that(2)])
  have v: "bot_orientation (infer_orientation s) = Some Vertical"
    if "2 \<le> length (bot_hit_chain s)" "distinct (bot_hit_chain s)" ?cols
  proof -
    have nr: "\<not> ?rows" using distinct_not_both[OF that(1,2)] that(3) by blast
    show ?thesis unfolding ori[OF that(1)] by (simp only: if_not_P[OF nr] if_P[OF that(3)])
  qed
  have n: "bot_orientation (infer_orientation s) = None"
    if "2 \<le> length (bot_hit_chain s)" "\<not> ?rows" "\<not> ?cols"
    unfolding ori[OF that(1)] by (simp only: if_not_P[OF that(2)] if_not_P[OF that(3)])
  from short only ori h v n show ?thesis by blast
qed

theorem infer_orientation_correct_witness:
  "2 \<le> length (bot_hit_chain (sample_state\<lparr>bot_hit_chain := [(4, 2), (4, 3)]\<rparr>))
   \<and> distinct (bot_hit_chain (sample_state\<lparr>bot_hit_chain := [(4, 2), (4, 3)]\<rparr>))
   \<and> bot_orientation (infer_orientation (sample_state\<lparr>bot_hit_chain := [(4, 2), (4, 3)]\<rparr>))
       = Some Horizontal
   \<and> bot_orientation (infer_orientation (sample_state\<lparr>bot_hit_chain := [(2, 5), (3, 5)]\<rparr>))
       = Some Vertical
   \<and> bot_orientation (infer_orientation (sample_state\<lparr>bot_hit_chain := [(2, 5), (3, 6)]\<rparr>))
       = None
   \<and> infer_orientation (sample_state\<lparr>bot_hit_chain := [(4, 2)]\<rparr>)
       = sample_state\<lparr>bot_hit_chain := [(4, 2)]\<rparr>"
proof -
  let ?h = "sample_state\<lparr>bot_hit_chain := [(4, 2), (4, 3)]\<rparr>"
  let ?v = "sample_state\<lparr>bot_hit_chain := [(2, 5), (3, 5)]\<rparr>"
  let ?n = "sample_state\<lparr>bot_hit_chain := [(2, 5), (3, 6)]\<rparr>"
  let ?o = "sample_state\<lparr>bot_hit_chain := [(4, 2)]\<rparr>"
  have len: "2 \<le> length (bot_hit_chain ?h)" and dist: "distinct (bot_hit_chain ?h)" by simp_all
  from infer_orientation_correct[of ?h]
  have 1: "bot_orientation (infer_orientation ?h) = Some Horizontal" by simp
  from infer_orientation_correct[of ?v]
  have 2: "bot_orientation (infer_orientation ?v) = Some Vertical" by simp
  from infer_orientation_correct[of ?n]
  have 3: "bot_orientation (infer_orientation ?n) = None" by simp
  from infer_orientation_correct[of ?o]
  have 4: "infer_orientation ?o = ?o" by simp
  from len dist 1 2 3 4 show ?thesis by blast
qed

subsection \<open>Turns and extra shots\<close>

lemma player_take_turn_flag:
  assumes "player_take_turn s coord = Inr ((c, res), s')"
  shows "player_gets_extra_shot s' \<longleftrightarrow> res = Hit \<or> res = Sink"
proof -
  from assms obtain flag s1 where
    "apply_player_move s coord = Inr ((res, flag), s1)"
    and s': "s' = (if res = Hit \<or> res = Sink then s1\<lparr>player_gets_extra_shot := True\<rparr>
                   else s1\<lparr>player_gets_extra_shot := False\<rparr>)"
    by (auto simp: player_take_turn_def bind_res_eq_Inr)
  show ?thesis by (simp add: s')
qed

lemma infer_orientation_flag:
  "bot_gets_extra_shot (infer_orientation t) = bot_gets_extra_shot t"
  by (simp add: infer_orientation_def Let_def)

lemma bot_update_state_flag:
  "bot_gets_extra_shot (bot_update_state s mv res) \<longleftrightarrow> res = Hit \<or> res = Sink"
  by (cases res) (simp_all add: bot_update_state_def Let_def infer_orientation_flag)

lemma bot_take_turn_flag:
  assumes "bot_take_turn rnd s = Inr ((c, res), s')"
  shows "bot_gets_extra_shot s' \<longleftrightarrow> res = Hit \<or> res = Sink"
proof -
  from assms obtain s2 mv where "s' = bot_update_state s2 mv res"
    by (auto simp: bot_take_turn_def bot_attack_def bind_res_eq_Inr)
  then show ?thesis by (simp only: bot_update_state_flag)
qed

lemma next_turn_counter:
  "turn_number (next_turn s) =
     (if \<not> player_gets_extra_shot s \<and> \<not> bot_gets_extra_shot s then turn_number s + 1
      else turn_number s)"
  by (simp add: next_turn_def Let_def)

lemma next_turn_side:
  "current_turn (next_turn s) =
     (if player_gets_extra_shot s then Player
      else if bot_gets_extra_shot s then Bot
      else if current_turn s = Player then Bot else Player)"
  by (simp add: next_turn_def Let_def)

lemma next_turn_switch:
  assumes "state_ok s"
  shows "current_turn (next_turn s) \<noteq> current_turn s
         \<longleftrightarrow> \<not> player_gets_extra_shot s \<and> \<not> bot_gets_extra_shot s"
proof -
  from assms have p: "player_gets_extra_shot s \<longrightarrow> current_turn s = Player"
    and b: "bot_gets_extra_shot s \<longrightarrow> current_turn s = Bot"
    by (simp_all add: state_ok_def)
  show ?thesis
    using p b by (cases "current_turn s") (simp_all add: next_turn_side)
qed

lemma player_take_turn_side:
  "player_take_turn s coord = Inr (out, s') \<Longrightarrow> current_turn s' = current_turn s"
  by (auto simp: player_take_turn_def apply_player_move_def bind_res_eq_Inr split: if_splits)

lemma infer_orientation_side: "current_turn (infer_orientation t) = current_turn t"
  by (simp add: infer_orientation_def Let_def)

lemma bot_update_state_side: "current_turn (bot_update_state s mv res) = current_turn s"
  by (cases res) (simp_all add: bot_update_state_def Let_def infer_orientation_side)

lemma bot_take_turn_side:
  assumes "bot_take_turn rnd s = Inr (out, s')"
  shows "current_turn s' = current_turn s"
proof -
  from assms obtain mv s1 res b' where
    choose: "choose_bot_move rnd s = Inr (mv, s1)"
    and s': "s' = bot_update_state (s1\<lparr>player_board := b'\<rparr>) mv res"
    by (auto simp: bot_take_turn_def bot_attack_def apply_bot_move_def bind_res_eq_Inr)
  from choose_bot_move_fields[OF choose] have "current_turn s1 = current_turn s"
    by (simp add: ai_fields_only_def)
  then show ?thesis by (simp add: s' bot_update_state_side)
qed

text \<open>
  Claim C8 (turn and extra-shot rules). After \<^verbatim>\<open>player_take_turn\<close> the player's
  extra-shot flag is set exactly when the result is Hit or Sink, and likewise the bot's
  flag after \<^verbatim>\<open>bot_take_turn\<close>. \<^verbatim>\<open>next_turn\<close> adds one to the turn counter
  exactly when neither flag is set, and in a state of a game it hands the turn to the
  other side in exactly that case. So a side that has just attacked in its own turn keeps
  the turn, and the counter stands still, exactly on Hit or Sink.
\<close>

theorem turn_and_extra_shot_rules:
  "(player_take_turn s coord = Inr ((c, res), s')
      \<longrightarrow> (player_gets_extra_shot s' \<longleftrightarrow> res = Hit \<or> res = Sink))
   \<and> (bot_take_turn rnd s = Inr ((c, res), s')
      \<longrightarrow> (bot_gets_extra_shot s' \<longleftrightarrow> res = Hit \<or> res = Sink))
   \<and> turn_number (next_turn s) =
        (if \<not> player_gets_extra_shot s \<and> \<not> bot_gets_extra_shot s then turn_number s + 1
         else turn_number s)
   \<and> (reachable s \<longrightarrow>
        (current_turn (next_turn s) \<noteq> current_turn s
           \<longleftrightarrow> \<not> player_gets_extra_shot s \<and> \<not> bot_gets_extra_shot s))
   \<and> (reachable s \<and> current_turn s = Player \<and> player_take_turn s coord = Inr ((c, res), s')
      \<longrightarrow> (current_turn (next_turn s') = Player \<longleftrightarrow> res = Hit \<or> res = Sink)
        \<and> (turn_number (next_turn s') = turn_number s' \<longleftrightarrow> res = Hit \<or> res = Sink))
   \<and> (reachable s \<and> current_turn s = Bot \<and> bot_take_turn rnd s = Inr ((c, res), s')
      \<longrightarrow> (current_turn (next_turn s') = Bot \<longleftrightarrow> res = Hit \<or> res = Sink)
        \<and> (turn_number (next_turn s') = turn_number s' \<longleftrightarrow> res = Hit \<or> res = Sink))"
proof -
  have p: "(current_turn (next_turn s') = Player \<longleftrightarrow> res = Hit \<or> res = Sink)
        \<and> (turn_number (next_turn s') = turn_number s' \<longleftrightarrow> res = Hit \<or> res = Sink)"
    if "reachable s" "current_turn s = Player" "player_take_turn s coord = Inr ((c, res), s')"
  proof -
    from that have "reachable s'" by (rule reachable.player_attack)
    then have ok: "state_ok s'" by (rule reachable_state_ok)
    from player_take_turn_side[OF that(3)] that(2) have side: "current_turn s' = Player" by simp
    with ok have nb: "\<not> bot_gets_extra_shot s'" by (auto simp: state_ok_def)
    from player_take_turn_flag[OF that(3)] nb side show ?thesis
      by (simp add: next_turn_side next_turn_counter)
  qed
  have b: "(current_turn (next_turn s') = Bot \<longleftrightarrow> res = Hit \<or> res = Sink)
        \<and> (turn_number (next_turn s') = turn_number s' \<longleftrightarrow> res = Hit \<or> res = Sink)"
    if "reachable s" "current_turn s = Bot" "bot_take_turn rnd s = Inr ((c, res), s')"
  proof -
    from that have "reachable s'" by (rule reachable.bot_attack)
    then have ok: "state_ok s'" by (rule reachable_state_ok)
    from bot_take_turn_side[OF that(3)] that(2) have side: "current_turn s' = Bot" by simp
    with ok have np: "\<not> player_gets_extra_shot s'" by (auto simp: state_ok_def)
    from bot_take_turn_flag[OF that(3)] np side show ?thesis
      by (simp add: next_turn_side next_turn_counter)
  qed
  have sw: "current_turn (next_turn s) \<noteq> current_turn s
           \<longleftrightarrow> \<not> player_gets_extra_shot s \<and> \<not> bot_gets_extra_shot s" if "reachable s"
    using reachable_state_ok[OF that] by (rule next_turn_switch)
  from p b sw player_take_turn_flag[of s coord c res s'] bot_take_turn_flag[of rnd s c res s']
    next_turn_counter[of s]
  show ?thesis by blast
qed

theorem turn_and_extra_shot_rules_witness:
  "reachable sample_state \<and> current_turn sample_state = Player
   \<and> player_take_turn sample_state (0, 0)
       = Inr (((0, 0), Hit), sample_state\<lparr>bot_board := set_cell blank_board (0, 0) (CHR ''H''),
                                          player_gets_extra_shot := True\<rparr>)
   \<and> current_turn (next_turn (sample_state\<lparr>bot_board := set_cell blank_board (0, 0) (CHR ''H''),
                                          player_gets_extra_shot := True\<rparr>)) = Player
   \<and> turn_number (next_turn (sample_state\<lparr>bot_board := set_cell blank_board (0, 0) (CHR ''H''),
                                          player_gets_extra_shot := True\<rparr>)) = 0
   \<and> current_turn (next_turn sample_state) = Bot
   \<and> turn_number (next_turn sample_state) = 1"
proof -
  let ?s' = "sample_state\<lparr>bot_board := set_cell blank_board (0, 0) (CHR ''H''),
                          player_gets_extra_shot := True\<rparr>"
  have r: "reachable sample_state" using sample_state_init by (rule reachable.start)
  have t: "current_turn sample_state = Player" by (simp add: sample_state_def)
  have run: "player_take_turn sample_state (0, 0) = Inr (((0, 0), Hit), ?s')" by code_simp
  have flags: "\<not> player_gets_extra_shot sample_state" "\<not> bot_gets_extra_shot sample_state"
    "turn_number sample_state = 0" "turn_number ?s' = 0"
    by (simp_all add: sample_state_def)
  from turn_and_extra_shot_rules[of sample_state "(0, 0)" "(0, 0)" Hit ?s'] r t run
  have keep: "current_turn (next_turn ?s') = Player" "turn_number (next_turn ?s') = turn_number ?s'"
    by simp_all
  from turn_and_extra_shot_rules[of sample_state "(0, 0)" "(0, 0)" Hit ?s'] r t flags
  have pass: "current_turn (next_turn sample_state) \<noteq> Player"
    "turn_number (next_turn sample_state) = 1"
    by simp_all
  from pass(1) have "current_turn (next_turn sample_state) = Bot"
    by (cases "current_turn (next_turn sample_state)") simp_all
  with r t run keep pass flags show ?thesis by simp
qed

subsection \<open>Fleet validator\<close>

lemma sample_fleet_valid: "validate_ship_fleet sample_fleet = Inr (True, None)"
  by code_simp

text \<open>
  Claim C1 (validator soundness). The validator is meant to accept a fleet only when no
  two of its ships share a cell. \<open>stacked_fleet\<close> has two ships of size 1 on the
  same cell \<open>(6, 5)\<close>, at positions 8 and 9 of the list, and the validator accepts it:
  \<^verbatim>\<open>ships_touch_or_overlap\<close> passes over every ship that contains the coordinate at hand,
  not only the ship the coordinate was taken from.
\<close>

theorem validate_accepts_stacked_ships:
  "validate_ship_fleet stacked_fleet = Inr (True, None)
   \<and> (8::nat) < 9 \<and> 9 < length stacked_fleet
   \<and> set (stacked_fleet ! 8) \<inter> set (stacked_fleet ! 9) = {(6, 5)}"
  by code_simp

subsection \<open>What the validator guarantees\<close>

lemma check_ships_all:
  "check_ships ships = Inr None \<Longrightarrow> ship \<in> set ships \<Longrightarrow> check_ship ship = Inr None"
proof (induction ships)
  case Nil
  then show ?case by simp
next
  case (Cons a ships)
  from Cons.prems(1) have "check_ship a = Inr None \<and> check_ships ships = Inr None"
    by (auto simp: bind_res_eq_Inr split: option.splits)
  moreover from Cons.prems(2) have "ship = a \<or> ship \<in> set ships" by simp
  ultimately show ?case using Cons.IH by blast
qed

lemma validate_parts:
  assumes "validate_ship_fleet ships = Inr (True, None)"
  shows "check_ships ships = Inr None" and "\<not> ships_touch_or_overlap ships"
proof -
  from assms have "check_ships ships = Inr None \<and> \<not> ships_touch_or_overlap ships"
    by (auto simp: validate_ship_fleet_def bind_res_eq_Inr split: if_splits option.splits)
  then show "check_ships ships = Inr None" and "\<not> ships_touch_or_overlap ships" by simp_all
qed

lemma sort_upto_set:
  assumes "sort xs = [Min (set xs)..Max (set xs)]"
  shows "set xs = {Min (set xs)..Max (set xs)}" and "distinct xs"
proof -
  have "set xs = set (sort xs)" by simp
  also have "\<dots> = {Min (set xs)..Max (set xs)}" by (simp only: assms set_upto)
  finally show "set xs = {Min (set xs)..Max (set xs)}" .
  have "distinct (sort xs)" by (simp only: assms distinct_upto)
  then show "distinct xs" by simp
qed

lemma all_equal_distinct_single:
  assumes "\<forall>c\<in>set ship. f c = v" "distinct (map f ship)"
  shows "length ship \<le> 1"
proof (cases ship)
  case Nil
  then show ?thesis by simp
next
  case (Cons a rest)
  show ?thesis
  proof (cases rest)
    case Nil
    with Cons show ?thesis by simp
  next
    case (Cons b rest')
    with \<open>ship = a # rest\<close> assms(1) have "f a = f b" by simp
    with Cons \<open>ship = a # rest\<close> assms(2) show ?thesis by simp
  qed
qed

lemma single_runs:
  assumes "length ship \<le> 1"
  shows "horizontal_run ship" and "vertical_run ship"
proof -
  from assms have "ship = [] \<or> (\<exists>c. ship = [c])"
    by (cases ship) (auto simp: length_Suc_conv)
  then show "horizontal_run ship" and "vertical_run ship"
    by (auto simp: horizontal_run_def vertical_run_def prod_eq_iff)
qed

lemma run_from_range:
  assumes same: "\<forall>c\<in>set ship. f c = v"
    and range: "set (map g ship) = {lo..hi}"
    and pair: "\<And>c. c \<in> set ship \<Longrightarrow> mk (f c) (g c) = c"
  shows "\<forall>c\<in>set ship. \<forall>c'\<in>set ship.
           f c = f c' \<and> (\<forall>k::int. g c \<le> k \<and> k \<le> g c' \<longrightarrow> mk (f c) k \<in> set ship)"
proof (intro ballI conjI allI impI)
  fix c c' assume c: "c \<in> set ship" and c': "c' \<in> set ship"
  from same c c' show "f c = f c'" by simp
  fix k :: int assume k: "g c \<le> k \<and> k \<le> g c'"
  from c c' have "g c \<in> set (map g ship)" "g c' \<in> set (map g ship)" by simp_all
  with range have "lo \<le> g c" "g c' \<le> hi" by simp_all
  with k have "k \<in> {lo..hi}" by simp
  with range have "k \<in> set (map g ship)" by simp
  then obtain c'' where c'': "c'' \<in> set ship" "g c'' = k" by auto
  from same c c'' have "f c'' = f c" by simp
  with pair[OF c''(1)] c''(2) have "mk (f c) k = c''" by simp
  with c''(1) show "mk (f c) k \<in> set ship" by simp
qed

lemma check_ship_run:
  assumes "check_ship ship = Inr None"
  shows "ship \<noteq> []" and "list_all in_bounds ship" and "horizontal_run ship \<or> vertical_run ship"
proof -
  let ?rows = "map fst ship" and ?cols = "map snd ship"
  from assms have all:
    "list_all in_bounds ship
     \<and> (list_all (\<lambda>r. r = hd ?rows) ?rows \<or> list_all (\<lambda>c. c = hd ?cols) ?cols)
     \<and> ship \<noteq> []
     \<and> (sort ?rows = [Min (set ?rows)..Max (set ?rows)]
        \<or> sort ?cols = [Min (set ?cols)..Max (set ?cols)])"
    unfolding check_ship_def Let_def
    by (simp del: set_map split: if_splits)
  then have inb: "list_all in_bounds ship"
    and straight: "list_all (\<lambda>r. r = hd ?rows) ?rows \<or> list_all (\<lambda>c. c = hd ?cols) ?cols"
    and ne: "ship \<noteq> []"
    and gaps: "sort ?rows = [Min (set ?rows)..Max (set ?rows)]
        \<or> sort ?cols = [Min (set ?cols)..Max (set ?cols)]"
    by blast+
  show "ship \<noteq> []" by (rule ne)
  show "list_all in_bounds ship" by (rule inb)
  have rows_same: "\<forall>c\<in>set ship. fst c = hd ?rows" if "list_all (\<lambda>r. r = hd ?rows) ?rows"
    using that by (simp add: list_all_iff)
  have cols_same: "\<forall>c\<in>set ship. snd c = hd ?cols" if "list_all (\<lambda>c. c = hd ?cols) ?cols"
    using that by (simp add: list_all_iff)
  have h: "horizontal_run ship"
    if a: "list_all (\<lambda>r. r = hd ?rows) ?rows" and d: "sort ?cols = [Min (set ?cols)..Max (set ?cols)]"
    unfolding horizontal_run_def
    by (rule run_from_range[where f = fst and g = snd and mk = Pair and v = "hd ?rows",
          OF rows_same[OF a] sort_upto_set(1)[OF d]]) simp
  have v: "vertical_run ship"
    if b: "list_all (\<lambda>c. c = hd ?cols) ?cols" and c: "sort ?rows = [Min (set ?rows)..Max (set ?rows)]"
    unfolding vertical_run_def
    by (rule run_from_range[where f = snd and g = fst and mk = "\<lambda>y x. (x, y)" and v = "hd ?cols",
          OF cols_same[OF b] sort_upto_set(1)[OF c]]) simp
  have single_r: "length ship \<le> 1"
    if a: "list_all (\<lambda>r. r = hd ?rows) ?rows" and c: "sort ?rows = [Min (set ?rows)..Max (set ?rows)]"
    using rows_same[OF a] sort_upto_set(2)[OF c] by (rule all_equal_distinct_single)
  have single_c: "length ship \<le> 1"
    if b: "list_all (\<lambda>c. c = hd ?cols) ?cols" and d: "sort ?cols = [Min (set ?cols)..Max (set ?cols)]"
    using cols_same[OF b] sort_upto_set(2)[OF d] by (rule all_equal_distinct_single)
  from straight gaps h v single_r single_c single_runs
  show "horizontal_run ship \<or> vertical_run ship" by blast
qed

lemma no_touch:
  assumes "\<not> ships_touch_or_overlap ships" "s \<in> set ships" "t \<in> set ships"
    and "x \<in> set s" "x \<notin> set t" "n \<in> set (get_adjacent_and_diagonal_cells x)"
  shows "n \<notin> set t"
  using assms unfolding ships_touch_or_overlap_def list_ex_iff by blast

lemma neighbour_back:
  assumes "d = (0, 1) \<or> d = (0, - 1) \<or> d = (1, 0) \<or> d = (- 1, 0)" and "in_bounds (r, k)"
  shows "(r, k) \<in> set (get_adjacent_and_diagonal_cells (r + fst d, k + snd d))"
  using assms
  by (elim disjE) (simp_all add: get_adjacent_and_diagonal_cells_def directions_def)

lemma walk:
  assumes nt: "\<not> ships_touch_or_overlap ships" and s: "s \<in> set ships" and t: "t \<in> set ships"
    and inb: "list_all in_bounds s"
    and d: "d = (0, 1) \<or> d = (0, - 1) \<or> d = (1, 0) \<or> d = (- 1, 0)"
    and start: "(r, k) \<in> set t"
  shows "\<forall>j\<le>n. (r + int j * fst d, k + int j * snd d) \<in> set s
         \<Longrightarrow> (r + int n * fst d, k + int n * snd d) \<in> set t"
proof (induction n)
  case 0
  from start show ?case by simp
next
  case (Suc n)
  let ?p = "(r + int n * fst d, k + int n * snd d)"
  let ?q = "(r + int (Suc n) * fst d, k + int (Suc n) * snd d)"
  from Suc.prems have "\<forall>j\<le>n. (r + int j * fst d, k + int j * snd d) \<in> set s" by simp
  with Suc.IH have pt: "?p \<in> set t" by blast
  from Suc.prems[rule_format, of n] have ps: "?p \<in> set s" by simp
  from Suc.prems[rule_format, of "Suc n"] have qs: "?q \<in> set s" by simp
  from ps inb have "in_bounds ?p" by (simp add: list_all_iff)
  from neighbour_back[OF d this]
  have "?p \<in> set (get_adjacent_and_diagonal_cells
       (r + int n * fst d + fst d, k + int n * snd d + snd d))" .
  also have "(r + int n * fst d + fst d, k + int n * snd d + snd d) = ?q"
    by (simp add: algebra_simps)
  finally have adj: "?p \<in> set (get_adjacent_and_diagonal_cells ?q)" .
  show ?case
  proof (rule ccontr)
    assume "?q \<notin> set t"
    from no_touch[OF nt s t qs this adj] pt show False by simp
  qed
qed

lemma horizontal_runD:
  assumes "horizontal_run s" "(r, k) \<in> set s" "(r', m) \<in> set s"
  shows "r = r'" and "k \<le> j \<Longrightarrow> j \<le> m \<Longrightarrow> (r, j) \<in> set s"
proof -
  from bspec[OF bspec[OF assms(1)[unfolded horizontal_run_def] assms(2)] assms(3)]
  have both: "fst (r, k) = fst (r', m)
      \<and> (\<forall>j. snd (r, k) \<le> j \<and> j \<le> snd (r', m) \<longrightarrow> (fst (r, k), j) \<in> set s)" .
  from both show "r = r'" by simp
  from both have "\<forall>j. k \<le> j \<and> j \<le> m \<longrightarrow> (r, j) \<in> set s" by auto
  then show "k \<le> j \<Longrightarrow> j \<le> m \<Longrightarrow> (r, j) \<in> set s" by blast
qed

lemma same_cells_horizontal:
  assumes nt: "\<not> ships_touch_or_overlap ships" and s: "s \<in> set ships" and t: "t \<in> set ships"
    and inb: "list_all in_bounds s" and run: "horizontal_run s"
    and c: "c \<in> set s" "c \<in> set t" and y: "y \<in> set s"
  shows "y \<in> set t"
proof -
  obtain r k where ceq: "c = (r, k)" by (cases c)
  obtain r' m where yeq: "y = (r', m)" by (cases y)
  from c(1) have cs: "(r, k) \<in> set s" by (simp add: ceq)
  from y have ys: "(r', m) \<in> set s" by (simp add: yeq)
  from horizontal_runD(1)[OF run cs ys] have row: "r' = r" by simp
  from ys row have ys': "(r, m) \<in> set s" by simp
  from c(2) have start: "(r, k) \<in> set t" by (simp add: ceq)
  have d1: "(0::int, 1::int) = (0, 1) \<or> (0::int, 1::int) = (0, - 1)
      \<or> (0::int, 1::int) = (1, 0) \<or> (0::int, 1::int) = (- 1, 0)" by simp
  have d2: "(0::int, - 1::int) = (0, 1) \<or> (0::int, - 1::int) = (0, - 1)
      \<or> (0::int, - 1::int) = (1, 0) \<or> (0::int, - 1::int) = (- 1, 0)" by simp
  show ?thesis
  proof (cases "k \<le> m")
    case True
    define n where "n = nat (m - k)"
    have "\<forall>j\<le>n. (r + int j * fst (0::int, 1::int), k + int j * snd (0::int, 1::int)) \<in> set s"
    proof (intro allI impI)
      fix j assume "j \<le> n"
      with True have "k \<le> k + int j" "k + int j \<le> m" by (simp_all add: n_def)
      from horizontal_runD(2)[OF run cs ys' this] have "(r, k + int j) \<in> set s" .
      then show "(r + int j * fst (0::int, 1::int), k + int j * snd (0::int, 1::int)) \<in> set s"
        by simp
    qed
    from walk[OF nt s t inb d1 start this]
    have "(r, k + int n) \<in> set t" by simp
    with True show ?thesis by (simp add: yeq row n_def)
  next
    case False
    define n where "n = nat (k - m)"
    have "\<forall>j\<le>n. (r + int j * fst (0::int, - 1::int), k + int j * snd (0::int, - 1::int)) \<in> set s"
    proof (intro allI impI)
      fix j assume "j \<le> n"
      with False have "m \<le> k - int j" "k - int j \<le> k" by (simp_all add: n_def)
      from horizontal_runD(2)[OF run ys' cs this] have "(r, k - int j) \<in> set s" .
      then show "(r + int j * fst (0::int, - 1::int), k + int j * snd (0::int, - 1::int)) \<in> set s"
        by simp
    qed
    from walk[OF nt s t inb d2 start this]
    have "(r, k - int n) \<in> set t" by simp
    with False show ?thesis by (simp add: yeq row n_def)
  qed
qed

lemma vertical_runD:
  assumes "vertical_run s" "(k, c) \<in> set s" "(m, c') \<in> set s"
  shows "c = c'" and "k \<le> j \<Longrightarrow> j \<le> m \<Longrightarrow> (j, c) \<in> set s"
proof -
  from bspec[OF bspec[OF assms(1)[unfolded vertical_run_def] assms(2)] assms(3)]
  have both: "snd (k, c) = snd (m, c')
      \<and> (\<forall>j. fst (k, c) \<le> j \<and> j \<le> fst (m, c') \<longrightarrow> (j, snd (k, c)) \<in> set s)" .
  from both show "c = c'" by simp
  from both have "\<forall>j. k \<le> j \<and> j \<le> m \<longrightarrow> (j, c) \<in> set s" by auto
  then show "k \<le> j \<Longrightarrow> j \<le> m \<Longrightarrow> (j, c) \<in> set s" by blast
qed

lemma same_cells_vertical:
  assumes nt: "\<not> ships_touch_or_overlap ships" and s: "s \<in> set ships" and t: "t \<in> set ships"
    and inb: "list_all in_bounds s" and run: "vertical_run s"
    and c: "c \<in> set s" "c \<in> set t" and y: "y \<in> set s"
  shows "y \<in> set t"
proof -
  obtain k col where ceq: "c = (k, col)" by (cases c)
  obtain m col' where yeq: "y = (m, col')" by (cases y)
  from c(1) have cs: "(k, col) \<in> set s" by (simp add: ceq)
  from y have ys: "(m, col') \<in> set s" by (simp add: yeq)
  from vertical_runD(1)[OF run cs ys] have col: "col' = col" by simp
  from ys col have ys': "(m, col) \<in> set s" by simp
  from c(2) have start: "(k, col) \<in> set t" by (simp add: ceq)
  have d1: "(1::int, 0::int) = (0, 1) \<or> (1::int, 0::int) = (0, - 1)
      \<or> (1::int, 0::int) = (1, 0) \<or> (1::int, 0::int) = (- 1, 0)" by simp
  have d2: "(- 1::int, 0::int) = (0, 1) \<or> (- 1::int, 0::int) = (0, - 1)
      \<or> (- 1::int, 0::int) = (1, 0) \<or> (- 1::int, 0::int) = (- 1, 0)" by simp
  show ?thesis
  proof (cases "k \<le> m")
    case True
    define n where "n = nat (m - k)"
    have "\<forall>j\<le>n. (k + int j * fst (1::int, 0::int), col + int j * snd (1::int, 0::int)) \<in> set s"
    proof (intro allI impI)
      fix j assume "j \<le> n"
      with True have "k \<le> k + int j" "k + int j \<le> m" by (simp_all add: n_def)
      from vertical_runD(2)[OF run cs ys' this] have "(k + int j, col) \<in> set s" .
      then show "(k + int j * fst (1::int, 0::int), col + int j * snd (1::int, 0::int)) \<in> set s"
        by simp
    qed
    from walk[OF nt s t inb d1 start this]
    have "(k + int n, col) \<in> set t" by simp
    with True show ?thesis by (simp add: yeq col n_def)
  next
    case False
    define n where "n = nat (k - m)"
    have "\<forall>j\<le>n. (k + int j * fst (- 1::int, 0::int), col + int j * snd (- 1::int, 0::int)) \<in> set s"
    proof (intro allI impI)
      fix j assume "j \<le> n"
      with False have "m \<le> k - int j" "k - int j \<le> k" by (simp_all add: n_def)
      from vertical_runD(2)[OF run ys' cs this] have "(k - int j, col) \<in> set s" .
      then show "(k + int j * fst (- 1::int, 0::int), col + int j * snd (- 1::int, 0::int)) \<in> set s"
        by simp
    qed
    from walk[OF nt s t inb d2 start this]
    have "(k - int n, col) \<in> set t" by simp
    with False show ?thesis by (simp add: yeq col n_def)
  qed
qed

lemma valid_fleet_same_cells:
  assumes valid: "validate_ship_fleet ships = Inr (True, None)"
    and s: "s \<in> set ships" and t: "t \<in> set ships"
    and c: "c \<in> set s" "c \<in> set t"
  shows "set s = set t"
proof -
  note nt = validate_parts(2)[OF valid]
  note chk = check_ships_all[OF validate_parts(1)[OF valid]]
  have sub: "set a \<subseteq> set b" if a: "a \<in> set ships" and b: "b \<in> set ships"
    and ca: "c \<in> set a" and cb: "c \<in> set b" for a b
  proof
    fix y assume y: "y \<in> set a"
    from check_ship_run[OF chk[OF a]] have inb: "list_all in_bounds a"
      and run: "horizontal_run a \<or> vertical_run a" by blast+
    from run show "y \<in> set b"
    proof
      assume "horizontal_run a"
      from same_cells_horizontal[OF nt a b inb this ca cb y] show ?thesis .
    next
      assume "vertical_run a"
      from same_cells_vertical[OF nt a b inb this ca cb y] show ?thesis .
    qed
  qed
  from sub[OF s t c] sub[OF t s c(2,1)] show ?thesis by blast
qed

lemma valid_fleet_in_bounds:
  "validate_ship_fleet ships = Inr (True, None) \<Longrightarrow> s \<in> set ships \<Longrightarrow> list_all in_bounds s"
  using check_ship_run(2)[OF check_ships_all[OF validate_parts(1)]] by blast

text \<open>
  What an accepted fleet is known to satisfy: the required sizes, every ship in bounds
  and a run along a row or a column, and any two ships either on the very same cells or
  neither sharing a cell nor touching.
\<close>

lemma validate_guarantees:
  assumes valid: "validate_ship_fleet ships = Inr (True, None)"
  shows "sort (map length ships) = [1, 1, 1, 1, 2, 2, 2, 3, 3, 4]"
    and "\<And>s. s \<in> set ships \<Longrightarrow>
           s \<noteq> [] \<and> list_all in_bounds s \<and> (horizontal_run s \<or> vertical_run s)"
    and "\<And>s t. s \<in> set ships \<Longrightarrow> t \<in> set ships \<Longrightarrow>
           set s = set t
           \<or> (set s \<inter> set t = {}
              \<and> (\<forall>x\<in>set s. \<forall>n\<in>set (get_adjacent_and_diagonal_cells x). n \<notin> set t))"
proof -
  have sizes: "sort SHIP_SIZES = [1, 1, 1, 1, 2, 2, 2, 3, 3, 4]" by code_simp
  from valid have "sort (map length ships) = sort SHIP_SIZES"
    by (cases "sort (map length ships) = sort SHIP_SIZES") (simp_all add: validate_ship_fleet_def)
  with sizes show "sort (map length ships) = [1, 1, 1, 1, 2, 2, 2, 3, 3, 4]" by simp
  note chk = check_ships_all[OF validate_parts(1)[OF valid]]
  show "s \<noteq> [] \<and> list_all in_bounds s \<and> (horizontal_run s \<or> vertical_run s)"
    if "s \<in> set ships" for s
    using check_ship_run[OF chk[OF that]] by blast
  show "set s = set t
        \<or> (set s \<inter> set t = {}
           \<and> (\<forall>x\<in>set s. \<forall>n\<in>set (get_adjacent_and_diagonal_cells x). n \<notin> set t))"
    if s: "s \<in> set ships" and t: "t \<in> set ships" for s t
  proof (cases "set s \<inter> set t = {}")
    case True
    have "n \<notin> set t" if "x \<in> set s" "n \<in> set (get_adjacent_and_diagonal_cells x)" for x n
    proof -
      from True that(1) have "x \<notin> set t" by blast
      from no_touch[OF validate_parts(2)[OF valid] s t that(1) this that(2)] show ?thesis .
    qed
    with True show ?thesis by blast
  next
    case False
    then obtain c where "c \<in> set s" "c \<in> set t" by blast
    from valid_fleet_same_cells[OF valid s t this] show ?thesis by simp
  qed
qed

subsection \<open>Sinking a ship\<close>

lemma check_if_ship_sunk_wf:
  "wf_board b \<Longrightarrow> \<forall>s\<in>set ships. list_all in_bounds s \<Longrightarrow>
   check_if_ship_sunk c ships b
     = Inr (\<exists>s\<in>set ships. c \<in> set s \<and> (\<forall>x\<in>set s. cell_at b x = CHR ''H''))"
  by (induction ships) (auto simp: all_hit_wf)

lemma mark_surrounding_wf:
  "wf_board b \<Longrightarrow> \<forall>s\<in>set ships. list_all in_bounds s \<Longrightarrow>
   mark_surrounding_cells_as_miss c ships b
     = (case find (\<lambda>s. c \<in> set s) ships of
          None \<Rightarrow> Inr b
        | Some s \<Rightarrow> if \<forall>x\<in>set s. cell_at b x = CHR ''H''
                    then mark_cells (surrounding_cells s) b else Inr b)"
  by (induction ships) (auto simp: all_hit_wf)

lemma attack_board_cell:
  assumes "attack_board b" "in_bounds c"
  shows "cell_at b c = CHR '' '' \<or> cell_at b c = CHR ''H'' \<or> cell_at b c = CHR ''M''"
proof -
  obtain r k where c: "c = (r, k)" by (cases c)
  from assms(1) have wf: "wf_board b"
    and legal: "\<forall>line\<in>set b. \<forall>v\<in>set line. v = CHR '' '' \<or> v = CHR ''H'' \<or> v = CHR ''M''"
    by (simp_all add: attack_board_def list_all_iff)
  from assms(2) c have rk: "0 \<le> r" "r < 10" "0 \<le> k" "k < 10" by (simp_all add: in_bounds_iff)
  from wf rk have "nat r < length b" by (simp add: wf_length)
  then have line: "b ! nat r \<in> set b" by simp
  from wf rk have "nat k < length (b ! nat r)" by (simp add: wf_row_length)
  then have "b ! nat r ! nat k \<in> set (b ! nat r)" by simp
  with legal line show ?thesis by (auto simp: c cell_at_def)
qed

lemma neighbours_in_bounds: "n \<in> set (get_adjacent_and_diagonal_cells c) \<Longrightarrow> in_bounds n"
  by (cases c) (auto simp: get_adjacent_and_diagonal_cells_def)

lemma neighbours_in_surrounding:
  "cell \<in> set ship \<Longrightarrow> n \<in> set (get_adjacent_and_diagonal_cells cell)
   \<Longrightarrow> n \<in> set (surrounding_cells ship)"
  by (auto simp: surrounding_cells_def neighbours_in_bounds)

lemma find_first_ship:
  "find (\<lambda>s. c \<in> set s) ships = Some s \<Longrightarrow> s \<in> set ships \<and> c \<in> set s"
  by (induction ships) (auto split: if_splits)

lemma find_no_ship:
  "find (\<lambda>s. c \<in> set s) ships = None \<Longrightarrow> \<forall>s\<in>set ships. c \<notin> set s"
  by (induction ships) (auto split: if_splits)

lemma sink_perimeter:
  assumes ab: "attack_board b" and valid: "validate_ship_fleet ships = Inr (True, None)"
    and run: "apply_move b sb ships coord = Inr ((Sink, flag), b')"
  shows "\<exists>ship\<in>set ships. coord \<in> set ship"
    and "\<And>ship cell n. ship \<in> set ships \<Longrightarrow> coord \<in> set ship \<Longrightarrow> cell \<in> set ship
          \<Longrightarrow> n \<in> set (get_adjacent_and_diagonal_cells cell)
          \<Longrightarrow> cell_at b' n = CHR ''H'' \<or> cell_at b' n = CHR ''M''"
proof -
  let ?b1 = "set_cell b coord (CHR ''H'')"
  from ab have wf: "wf_board b" by (simp add: attack_board_def)
  have inb_ships: "\<forall>s\<in>set ships. list_all in_bounds s"
    using valid_fleet_in_bounds[OF valid] by blast
  have inb: "in_bounds coord"
    using apply_move_wf[OF wf run] by simp
  have fresh: "cell_at b coord \<noteq> CHR ''H''" "cell_at b coord \<noteq> CHR ''M''"
    using apply_move_resolved[OF wf inb, of sb ships] run by auto
  from apply_move_fresh[OF wf inb fresh run]
  have sunk: "check_if_ship_sunk coord ships ?b1 = Inr True"
    and mark: "mark_surrounding_cells_as_miss coord ships ?b1 = Inr b'"
    by simp_all
  have wf1: "wf_board ?b1" using wf by (rule wf_set_cell)
  from sunk check_if_ship_sunk_wf[OF wf1 inb_ships, of coord]
  obtain s1 where s1: "s1 \<in> set ships" "coord \<in> set s1" "\<forall>x\<in>set s1. cell_at ?b1 x = CHR ''H''"
    by auto
  from s1 show "\<exists>ship\<in>set ships. coord \<in> set ship" by blast
  obtain s0 where s0: "find (\<lambda>s. coord \<in> set s) ships = Some s0"
    using find_no_ship[of coord ships] s1 by (cases "find (\<lambda>s. coord \<in> set s) ships") auto
  from find_first_ship[OF s0] have s0m: "s0 \<in> set ships" "coord \<in> set s0" by simp_all
  have eq01: "set s0 = set s1"
    using valid_fleet_same_cells[OF valid s0m(1) s1(1) s0m(2) s1(2)] .
  with s1(3) have all0: "\<forall>x\<in>set s0. cell_at ?b1 x = CHR ''H''" by simp
  from mark mark_surrounding_wf[OF wf1 inb_ships, of coord] s0 all0
  have marked: "mark_cells (surrounding_cells s0) ?b1 = Inr b'" by simp
  from mark_cells_spec[OF wf1 surrounding_in_bounds, of s0] marked
  have spec: "\<And>c. in_bounds c \<Longrightarrow>
      cell_at b' c = (if c \<in> set (surrounding_cells s0) \<and> cell_at ?b1 c = CHR '' ''
                      then CHR ''M'' else cell_at ?b1 c)"
    by auto
  have legal1: "cell_at ?b1 c = CHR '' '' \<or> cell_at ?b1 c = CHR ''H'' \<or> cell_at ?b1 c = CHR ''M''"
    if "in_bounds c" for c
    using attack_board_cell[OF ab that] wf inb that by (simp add: cell_at_set_cell)
  fix ship cell n
  assume ship: "ship \<in> set ships" "coord \<in> set ship" and cell: "cell \<in> set ship"
    and n: "n \<in> set (get_adjacent_and_diagonal_cells cell)"
  have "set ship = set s0"
    using valid_fleet_same_cells[OF valid ship(1) s0m(1) ship(2) s0m(2)] .
  with cell have "cell \<in> set s0" by simp
  from neighbours_in_surrounding[OF this n] have ns: "n \<in> set (surrounding_cells s0)" .
  from neighbours_in_bounds[OF n] have nb: "in_bounds n" .
  from spec[OF nb] ns legal1[OF nb]
  show "cell_at b' n = CHR ''H'' \<or> cell_at b' n = CHR ''M''" by auto
qed

text \<open>
  Claim C3 (a sink closes the perimeter). On an attack board of the built shape holding
  only blank, \<open>H\<close> and \<open>M\<close>, and under a fleet the validator accepts: when
  \<^verbatim>\<open>apply_move\<close> returns Sink, the coordinate lies in a ship of the fleet, and on the
  board left behind every in-bounds cell next to a cell of that ship, side by side or
  diagonally, reads \<open>H\<close> or \<open>M\<close>. For a single ship of size 1 at \<open>(0, 0)\<close>,
  attacking \<open>(0, 0)\<close> on a blank board returns Sink and leaves \<open>(0, 1)\<close>,
  \<open>(1, 0)\<close> and \<open>(1, 1)\<close>, its only neighbours in bounds, reading \<open>M\<close>.
\<close>

theorem sink_closes_perimeter:
  "(attack_board b \<and> validate_ship_fleet ships = Inr (True, None)
      \<and> apply_move b sb ships coord = Inr ((Sink, flag), b')
     \<longrightarrow> (\<exists>ship\<in>set ships. coord \<in> set ship)
       \<and> (\<forall>ship\<in>set ships. coord \<in> set ship \<longrightarrow>
            (\<forall>cell\<in>set ship. \<forall>n\<in>set (get_adjacent_and_diagonal_cells cell).
               cell_at b' n = CHR ''H'' \<or> cell_at b' n = CHR ''M'')))
   \<and> create_ship_board [[(0, 0)]] = Inr corner_ship_board
   \<and> apply_move blank_board corner_ship_board [[(0, 0)]] (0, 0)
       = Inr ((Sink, True), corner_sunk_board)
   \<and> get_adjacent_and_diagonal_cells (0, 0) = [(1, 0), (0, 1), (1, 1)]
   \<and> cell_at corner_sunk_board (0, 1) = CHR ''M''
   \<and> cell_at corner_sunk_board (1, 0) = CHR ''M''
   \<and> cell_at corner_sunk_board (1, 1) = CHR ''M''"
proof -
  have general: "(\<exists>ship\<in>set ships. coord \<in> set ship)
       \<and> (\<forall>ship\<in>set ships. coord \<in> set ship \<longrightarrow>
            (\<forall>cell\<in>set ship. \<forall>n\<in>set (get_adjacent_and_diagonal_cells cell).
               cell_at b' n = CHR ''H'' \<or> cell_at b' n = CHR ''M''))"
    if "attack_board b" "validate_ship_fleet ships = Inr (True, None)"
      "apply_move b sb ships coord = Inr ((Sink, flag), b')"
    using sink_perimeter[OF that] by blast
  have c1: "create_ship_board [[(0, 0)]] = Inr corner_ship_board" by code_simp
  have c2: "apply_move blank_board corner_ship_board [[(0, 0)]] (0, 0)
       = Inr ((Sink, True), corner_sunk_board)" by code_simp
  have c3: "get_adjacent_and_diagonal_cells (0, 0) = [(1, 0), (0, 1), (1, 1)]" by code_simp
  have c4: "cell_at corner_sunk_board (0, 1) = CHR ''M''" by code_simp
  have c5: "cell_at corner_sunk_board (1, 0) = CHR ''M''" by code_simp
  have c6: "cell_at corner_sunk_board (1, 1) = CHR ''M''" by code_simp
  from general c1 c2 c3 c4 c5 c6 show ?thesis by blast
qed

theorem sink_closes_perimeter_witness:
  "attack_board blank_board \<and> validate_ship_fleet sample_fleet = Inr (True, None)
   \<and> apply_move blank_board sample_ship_board sample_fleet (2, 5)
       = Inr ((Sink, True), sample_sunk_board)
   \<and> [(2, 5)] \<in> set sample_fleet
   \<and> (1, 4) \<in> set (get_adjacent_and_diagonal_cells (2, 5))
   \<and> (cell_at sample_sunk_board (1, 4) = CHR ''H'' \<or> cell_at sample_sunk_board (1, 4) = CHR ''M'')"
proof -
  have h1: "attack_board blank_board" by code_simp
  have h2: "validate_ship_fleet sample_fleet = Inr (True, None)" by (rule sample_fleet_valid)
  have h3: "apply_move blank_board sample_ship_board sample_fleet (2, 5)
       = Inr ((Sink, True), sample_sunk_board)" by code_simp
  have m1: "[(2, 5)] \<in> set sample_fleet" by code_simp
  have m2: "(2, 5) \<in> set [(2 :: int, 5 :: int)]" by simp
  have m3: "(1, 4) \<in> set (get_adjacent_and_diagonal_cells (2, 5))" by code_simp
  from sink_closes_perimeter[of blank_board sample_fleet sample_ship_board "(2, 5)" True
      sample_sunk_board] h1 h2 h3
  have "\<forall>ship\<in>set sample_fleet. (2, 5) \<in> set ship \<longrightarrow>
            (\<forall>cell\<in>set ship. \<forall>n\<in>set (get_adjacent_and_diagonal_cells cell).
               cell_at sample_sunk_board n = CHR ''H'' \<or> cell_at sample_sunk_board n = CHR ''M'')"
    by blast
  from this[rule_format, OF m1 m2 m2 m3] h1 h2 h3 m1 m3 show ?thesis by blast
qed

subsection \<open>Attack boards in every state of a game\<close>

lemma attack_board_iff:
  "attack_board b \<longleftrightarrow>
     wf_board b \<and> (\<forall>c. in_bounds c \<longrightarrow>
        cell_at b c = CHR '' '' \<or> cell_at b c = CHR ''H'' \<or> cell_at b c = CHR ''M'')"
proof
  assume "attack_board b"
  then show "wf_board b \<and> (\<forall>c. in_bounds c \<longrightarrow>
        cell_at b c = CHR '' '' \<or> cell_at b c = CHR ''H'' \<or> cell_at b c = CHR ''M'')"
    using attack_board_cell by (simp add: attack_board_def)
next
  assume r: "wf_board b \<and> (\<forall>c. in_bounds c \<longrightarrow>
        cell_at b c = CHR '' '' \<or> cell_at b c = CHR ''H'' \<or> cell_at b c = CHR ''M'')"
  then have wf: "wf_board b" by simp
  have "v = CHR '' '' \<or> v = CHR ''H'' \<or> v = CHR ''M''"
    if line: "line \<in> set b" and v: "v \<in> set line" for line v
  proof -
    from line obtain i where i: "i < length b" "line = b ! i" by (auto simp: in_set_conv_nth)
    from v obtain j where j: "j < length line" "v = line ! j" by (auto simp: in_set_conv_nth)
    from wf i have i10: "i < 10" by (simp add: wf_length)
    with wf i j have j10: "j < 10" by (simp add: wf_board_iff)
    from i10 j10 have "in_bounds (int i, int j)" by (simp add: in_bounds_iff)
    with r have "cell_at b (int i, int j) = CHR '' '' \<or> cell_at b (int i, int j) = CHR ''H''
        \<or> cell_at b (int i, int j) = CHR ''M''" by blast
    then show ?thesis by (simp add: cell_at_def i j)
  qed
  with wf show "attack_board b" by (simp add: attack_board_def list_all_iff)
qed

lemma attack_board_set_cell:
  assumes "attack_board b" "in_bounds c" "v = CHR ''H'' \<or> v = CHR ''M''"
  shows "attack_board (set_cell b c v)"
proof -
  from assms(1) have wf: "wf_board b" by (simp add: attack_board_def)
  have legal: "\<And>c'. in_bounds c' \<Longrightarrow>
        cell_at b c' = CHR '' '' \<or> cell_at b c' = CHR ''H'' \<or> cell_at b c' = CHR ''M''"
    by (rule attack_board_cell[OF assms(1)])
  have "cell_at (set_cell b c v) c' = CHR '' '' \<or> cell_at (set_cell b c v) c' = CHR ''H''
      \<or> cell_at (set_cell b c v) c' = CHR ''M''" if "in_bounds c'" for c'
    using legal[OF that] assms(2,3) wf that by (simp add: cell_at_set_cell)
  with wf show ?thesis by (simp add: attack_board_iff wf_set_cell)
qed

lemma mark_surrounding_cells:
  "wf_board b \<Longrightarrow> mark_surrounding_cells_as_miss coord ships b = Inr b' \<Longrightarrow>
   in_bounds c \<Longrightarrow> cell_at b' c = cell_at b c \<or> cell_at b' c = CHR ''M''"
proof (induction ships)
  case Nil
  then show ?case by simp
next
  case (Cons ship ships)
  show ?case
  proof (cases "coord \<in> set ship")
    case True
    with Cons.prems(2) obtain sunk where
      sunk: "(if sunk then mark_cells (surrounding_cells ship) b else Inr b) = Inr b'"
      by (auto simp: bind_res_eq_Inr)
    show ?thesis
    proof (cases sunk)
      case True
      from mark_cells_spec[OF Cons.prems(1) surrounding_in_bounds, of ship] obtain b2 where
        b2: "mark_cells (surrounding_cells ship) b = Inr b2"
          "\<And>c'. in_bounds c' \<Longrightarrow> cell_at b2 c' =
             (if c' \<in> set (surrounding_cells ship) \<and> cell_at b c' = CHR '' ''
              then CHR ''M'' else cell_at b c')"
        by blast
      from sunk True b2(1) have "b' = b2" by simp
      with b2(2)[OF Cons.prems(3)] show ?thesis by (simp split: if_splits)
    next
      case False
      with sunk show ?thesis by simp
    qed
  next
    case False
    with Cons show ?thesis by simp
  qed
qed

lemma apply_move_attack_board:
  assumes ab: "attack_board b" and run: "apply_move b sb ships coord = Inr ((res, flag), b')"
  shows "attack_board b'"
proof -
  from ab have wf: "wf_board b" by (simp add: attack_board_iff)
  consider (out) "\<not> in_bounds coord"
    | (seen) "in_bounds coord" "cell_at b coord = CHR ''H'' \<or> cell_at b coord = CHR ''M''"
    | (fresh) "in_bounds coord" "cell_at b coord \<noteq> CHR ''H''" "cell_at b coord \<noteq> CHR ''M''"
    by blast
  then show ?thesis
  proof cases
    case out
    with run ab show ?thesis by (simp add: apply_move_out_of_bounds)
  next
    case seen
    with run ab wf show ?thesis by (simp add: apply_move_resolved)
  next
    case fresh
    let ?bh = "set_cell b coord (CHR ''H'')"
    have abh: "attack_board ?bh" using ab fresh(1) by (rule attack_board_set_cell) simp
    then have wfh: "wf_board ?bh" by (simp add: attack_board_iff)
    from apply_move_fresh[OF wf fresh run] show ?thesis
    proof (elim disjE conjE)
      assume "b' = set_cell b coord (CHR ''M'')"
      with ab fresh(1) show ?thesis by (simp add: attack_board_set_cell)
    next
      assume "b' = ?bh"
      with abh show ?thesis by simp
    next
      assume m: "mark_surrounding_cells_as_miss coord ships ?bh = Inr b'"
      from mark_surrounding_frame[OF wfh m] have wf': "wf_board b'" by simp
      have "cell_at b' c = CHR '' '' \<or> cell_at b' c = CHR ''H'' \<or> cell_at b' c = CHR ''M''"
        if "in_bounds c" for c
        using mark_surrounding_cells[OF wfh m that] attack_board_cell[OF abh that] by auto
      with wf' show ?thesis by (simp add: attack_board_iff)
    qed
  qed
qed

lemma infer_orientation_boards:
  "player_board (infer_orientation s) = player_board s"
  "bot_board (infer_orientation s) = bot_board s"
  by (simp_all add: infer_orientation_def Let_def)

lemma bot_update_state_boards:
  "player_board (bot_update_state s mv res) = player_board s"
  "bot_board (bot_update_state s mv res) = bot_board s"
  by (cases res; simp add: bot_update_state_def Let_def infer_orientation_boards)+

lemma reachable_attack_boards:
  "reachable s \<Longrightarrow> attack_board (player_board s) \<and> attack_board (bot_board s)"
proof (induction rule: reachable.induct)
  case (start p_ships b_ships s)
  have "attack_board blank_board" by code_simp
  with start show ?case by (auto simp: init_state_def bind_res_eq_Inr)
next
  case (player_attack s coord out s')
  from player_attack.hyps(3) obtain res flag b' shot where
    run: "apply_move (bot_board s) (bot_board_ships s) (bot_ships s) coord = Inr ((res, flag), b')"
    and s': "s' = s\<lparr>bot_board := b', player_gets_extra_shot := shot\<rparr>"
    by (auto simp: player_take_turn_def apply_player_move_def bind_res_eq_Inr split: if_splits)
  from player_attack.IH apply_move_attack_board[OF _ run] show ?case by (simp add: s')
next
  case (bot_attack s rnd out s')
  from bot_attack.hyps(3) obtain mv s1 res flag b' where
    choose: "choose_bot_move rnd s = Inr (mv, s1)"
    and run: "apply_move (player_board s1) (player_board_ships s1) (player_ships s1) mv
        = Inr ((res, flag), b')"
    and s': "s' = bot_update_state (s1\<lparr>player_board := b'\<rparr>) mv res"
    by (auto simp: bot_take_turn_def bot_attack_def apply_bot_move_def bind_res_eq_Inr)
  from choose_bot_move_fields[OF choose] have same: "player_board s1 = player_board s"
    "bot_board s1 = bot_board s" by (simp_all add: ai_fields_only_def)
  from bot_attack.IH same apply_move_attack_board[OF _ run] show ?case
    by (simp add: s' bot_update_state_boards)
next
  case (handover s)
  then show ?case by (simp add: next_turn_def Let_def)
qed

end
